theory Spec2Isabelle
  imports Main "HOL-Library.Word"
begin

section \<open>RSA primitives of crypto/rsa/rsa\_impl.c\<close>

text \<open>
  The file under verification holds three functions:
  \<^item> \<open>GFp_rsa_check_modulus_and_exponent\<close>, the validation of a public modulus and exponent;
  \<^item> \<open>GFp_rsa_public_decrypt\<close>, the public-key operation on a block of bytes;
  \<^item> \<open>GFp_rsa_private_transform\<close>, the private-key operation: CRT exponentiation with
    blinding and a verification of the result.

  They are written on top of a big-integer engine (the \<open>GFp_BN_\<close> functions) and a blinding
  context (\<open>GFp_BN_BLINDING_\<close>) that live in other files. Those functions are modelled here from
  their description in sections 3, 4 and 6 of the specification; each such definition says so.
  The three functions themselves are translated from the C text, branch by branch.
\<close>

subsection \<open>Data model\<close>

type_synonym u8 = "8 word"

text \<open>\<open>BN_ULONG\<close> is the machine word of the engine; the 64-bit configuration is modelled.\<close>

type_synonym BN_ULONG = "64 word"

text \<open>
  A \<open>BIGNUM\<close> is its array of words \<open>d\<close>, least significant first, of which \<open>top\<close> are in use.
  The model keeps exactly the words in use, so \<open>top\<close> is the length of the list. Every big integer
  of these functions is parsed from bytes or produced modulo a positive modulus, so the sign flag
  is always clear and is not modelled. The fields are called \<open>bn_d\<close> and \<open>bn_top\<close> here, since
  a record field is a global constant.
\<close>

record BIGNUM =
  bn_d :: "BN_ULONG list"

definition bn_top :: "BIGNUM \<Rightarrow> nat" where
  "bn_top a = length (bn_d a)"

fun limbs_value :: "BN_ULONG list \<Rightarrow> nat" where
  "limbs_value [] = 0"
| "limbs_value (w # ws) = unat w + 2 ^ 64 * limbs_value ws"

definition bn_value :: "BIGNUM \<Rightarrow> nat" where
  "bn_value a = limbs_value (bn_d a)"

text \<open>The words of a number without leading zero words: the form every engine result has.\<close>

fun nat_limbs :: "nat \<Rightarrow> BN_ULONG list" where
  "nat_limbs n = (if n = 0 then [] else word_of_nat (n mod 2 ^ 64) # nat_limbs (n div 2 ^ 64))"

declare nat_limbs.simps [simp del]

definition bn_of_nat :: "nat \<Rightarrow> BIGNUM" where
  "bn_of_nat n = \<lparr>bn_d = nat_limbs n\<rparr>"

text \<open>Big-endian byte strings, as the callers pass them.\<close>

definition be_value :: "u8 list \<Rightarrow> nat" where
  "be_value bs = foldl (\<lambda>acc b. acc * 256 + unat b) 0 bs"

fun be_bytes :: "nat \<Rightarrow> nat \<Rightarrow> u8 list" where
  "be_bytes 0 x = []"
| "be_bytes (Suc len) x = word_of_nat (x div 256 ^ len mod 256) # be_bytes len x"

text \<open>
  The reason codes given to \<open>OPENSSL_PUT_ERROR\<close> in this file. \<open>NO_REASON\<close> stands for a return
  of zero with no reason queued (the first exit of the private transform), and
  \<open>ASSERTION_FAILURE\<close> for a failed \<open>assert\<close>, which aborts the process.
\<close>

datatype rsa_error =
    RSA_R_KEY_SIZE_TOO_SMALL
  | RSA_R_MODULUS_TOO_LARGE
  | RSA_R_BAD_E_VALUE
  | RSA_R_OUTPUT_BUFFER_TOO_SMALL
  | RSA_R_DATA_LEN_NOT_EQUAL_TO_MOD_LEN
  | RSA_R_DATA_TOO_LARGE_FOR_MODULUS
  | ERR_R_INTERNAL_ERROR
  | NO_REASON
  | ASSERTION_FAILURE

text \<open>
  A Montgomery context is used here through its modulus \<open>N\<close> only (field \<open>mont_N\<close>); the Montgomery
  radix \<open>R\<close> is one machine word per word of \<open>N\<close>.
\<close>

record BN_MONT_CTX =
  mont_N :: BIGNUM

definition mont_R :: "BN_MONT_CTX \<Rightarrow> nat" where
  "mont_R mont = 2 ^ (64 * bn_top (mont_N mont))"

text \<open>The fields of \<open>struct rsa_st\<close> that the transforms read (\<open>e\<close> is called \<open>rsa_e\<close>).\<close>

record RSA =
  rsa_e :: BIGNUM
  dmp1 :: BIGNUM
  dmq1 :: BIGNUM
  mont_n :: BN_MONT_CTX
  mont_p :: BN_MONT_CTX
  mont_q :: BN_MONT_CTX
  mont_qq :: BN_MONT_CTX
  qmn_mont :: BIGNUM
  iqmp_mont :: BIGNUM

text \<open>The blinding context: the blinding factor \<open>A\<close> and the unblinding factor \<open>Ai\<close>.\<close>

record BN_BLINDING =
  blinding_A :: BIGNUM
  blinding_Ai :: BIGNUM

text \<open>
  The randomness source is modelled by the outcome of the draw a call makes: \<open>None\<close> when the
  source fails, \<open>Some r\<close> when it delivers the value \<open>r\<close>.
\<close>

type_synonym RAND = "nat option"

subsection \<open>Arithmetic behind the engine\<close>

fun num_bits_nat :: "nat \<Rightarrow> nat" where
  "num_bits_nat n = (if n = 0 then 0 else Suc (num_bits_nat (n div 2)))"

declare num_bits_nat.simps [simp del]

text \<open>Modular exponentiation; lemma \<open>mod_pow_code\<close> below evaluates it by repeated squaring.\<close>

definition mod_pow :: "nat \<Rightarrow> nat \<Rightarrow> nat \<Rightarrow> nat" where
  "mod_pow a k m = a ^ k mod m"

text \<open>
  The extended Euclidean algorithm: \<open>egcd a b = (g, x, y)\<close> with \<open>a * x + b * y = g\<close> and
  \<open>g\<close> the greatest common divisor.
\<close>

fun egcd :: "nat \<Rightarrow> nat \<Rightarrow> nat \<times> int \<times> int" where
  "egcd a b =
     (if b = 0 then (a, 1, 0)
      else (case egcd b (a mod b) of (g, x, y) \<Rightarrow> (g, y, x - int (a div b) * y)))"

declare egcd.simps [simp del]

definition mod_inverse :: "nat \<Rightarrow> nat \<Rightarrow> nat option" where
  "mod_inverse a m =
     (case egcd a m of (g, x, y) \<Rightarrow> if g = 1 then Some (nat (x mod int m)) else None)"

subsection \<open>The big-integer engine\<close>

text \<open>
  Every function of this subsection is code of the repository that is outside the file under
  verification. An engine function that can return failure in C returns an \<open>option\<close> here.
  Running out of memory is outside the model, so the engine fails only where the value asked for
  does not exist.
\<close>

definition GFp_BN_bin2bn :: "u8 list \<Rightarrow> BIGNUM option" where
  \<comment> \<open>Modelled from the spec: \<open>GFp_BN_bin2bn\<close> is absent; section 6, "construction from
      big-endian byte strings".\<close>
  "GFp_BN_bin2bn bs = Some (bn_of_nat (be_value bs))"

definition GFp_BN_bn2bin_padded :: "u8 list \<Rightarrow> nat \<Rightarrow> BIGNUM \<Rightarrow> bool \<times> u8 list" where
  \<comment> \<open>Modelled from the spec: \<open>GFp_BN_bn2bin_padded\<close> is absent; section 6, "conversion to
      big-endian byte strings of a specified exact length (left-zero-padded on conversion out,
      fails if value does not fit)". The result is the return value and the buffer afterwards;
      a call that fails writes nothing.\<close>
  "GFp_BN_bn2bin_padded out len a =
     (if bn_value a < 256 ^ len then (True, be_bytes len (bn_value a) @ drop len out)
      else (False, out))"

definition GFp_BN_num_bits :: "BIGNUM \<Rightarrow> nat" where
  \<comment> \<open>Modelled from the spec: \<open>GFp_BN_num_bits\<close> is absent; section 6, "bit-length query".\<close>
  "GFp_BN_num_bits a = num_bits_nat (bn_value a)"

definition GFp_BN_num_bytes :: "BIGNUM \<Rightarrow> nat" where
  \<comment> \<open>Modelled from the spec: \<open>GFp_BN_num_bytes\<close> is absent; section 3, the byte length
      \<open>ceil(bitlen(n)/8)\<close>.\<close>
  "GFp_BN_num_bytes a = (GFp_BN_num_bits a + 7) div 8"

definition GFp_BN_is_odd :: "BIGNUM \<Rightarrow> bool" where
  \<comment> \<open>Modelled from the spec: \<open>GFp_BN_is_odd\<close> is absent; section 4.1, "\<open>e\<close> is odd".\<close>
  "GFp_BN_is_odd a = odd (bn_value a)"

definition GFp_BN_ucmp :: "BIGNUM \<Rightarrow> BIGNUM \<Rightarrow> int" where
  \<comment> \<open>Modelled from the spec: \<open>GFp_BN_ucmp\<close> is absent; section 6, "comparison (unsigned
      magnitude)": negative, zero or positive.\<close>
  "GFp_BN_ucmp a b = (if bn_value a < bn_value b then - 1 else if bn_value a = bn_value b then 0 else 1)"

definition GFp_BN_cmp :: "BIGNUM \<Rightarrow> BIGNUM \<Rightarrow> int" where
  \<comment> \<open>Modelled from the spec: \<open>GFp_BN_cmp\<close> is absent; section 6, "comparison (signed)"; the
      numbers compared here are not negative.\<close>
  "GFp_BN_cmp a b = (if bn_value a < bn_value b then - 1 else if bn_value a = bn_value b then 0 else 1)"

definition GFp_BN_add :: "BIGNUM \<Rightarrow> BIGNUM \<Rightarrow> BIGNUM option" where
  \<comment> \<open>Modelled from the spec: \<open>GFp_BN_add\<close> is absent; section 6, "addition".\<close>
  "GFp_BN_add a b = Some (bn_of_nat (bn_value a + bn_value b))"

definition GFp_BN_mod_sub_quick :: "BIGNUM \<Rightarrow> BIGNUM \<Rightarrow> BIGNUM \<Rightarrow> BIGNUM option" where
  \<comment> \<open>Modelled from the spec: \<open>GFp_BN_mod_sub_quick\<close> is absent; sections 4.3 and 6, a subtraction
      with "a single conditional add" of the modulus, "assuming bounded range": the difference
      lies strictly between minus the modulus and the modulus. The spec gives no result outside
      that range; the model fails there.\<close>
  "GFp_BN_mod_sub_quick a b m =
     (if bn_value b \<le> bn_value a then
        (if bn_value a - bn_value b < bn_value m then Some (bn_of_nat (bn_value a - bn_value b))
         else None)
      else if bn_value b - bn_value a < bn_value m
        then Some (bn_of_nat (bn_value a + bn_value m - bn_value b))
      else None)"

definition GFp_BN_mod_exp_mont_vartime ::
    "BIGNUM \<Rightarrow> BIGNUM \<Rightarrow> BIGNUM \<Rightarrow> BN_MONT_CTX option \<Rightarrow> BIGNUM option" where
  \<comment> \<open>Modelled from the spec: \<open>GFp_BN_mod_exp_mont_vartime\<close> is absent; sections 4.2 and 6,
      "\<open>result = f^e mod n\<close> using variable-time modular exponentiation under a Montgomery
      context". A Montgomery context exists for an odd modulus only; the call fails otherwise.
      The last argument is the optional precomputed context.\<close>
  "GFp_BN_mod_exp_mont_vartime a p m mont =
     (if odd (bn_value m) then Some (bn_of_nat (mod_pow (bn_value a) (bn_value p) (bn_value m)))
      else None)"

definition GFp_BN_mod_exp_mont_consttime ::
    "BIGNUM \<Rightarrow> BIGNUM \<Rightarrow> BN_MONT_CTX \<Rightarrow> BIGNUM option" where
  \<comment> \<open>Modelled from the spec: \<open>GFp_BN_mod_exp_mont_consttime\<close> is absent; sections 4.3 and 6,
      constant-time modular exponentiation under a Montgomery context, base and result not
      Montgomery-encoded.\<close>
  "GFp_BN_mod_exp_mont_consttime a p mont =
     (if odd (bn_value (mont_N mont))
      then Some (bn_of_nat (mod_pow (bn_value a) (bn_value p) (bn_value (mont_N mont))))
      else None)"

definition GFp_BN_reduce_mont :: "BIGNUM \<Rightarrow> BN_MONT_CTX \<Rightarrow> BIGNUM option" where
  \<comment> \<open>Modelled from the spec: \<open>GFp_BN_reduce_mont\<close> is absent; sections 4.3 and 6, "Montgomery
      reduction": one step reduces modulo \<open>N\<close> a value below the square of \<open>N\<close> ("a single
      mod-\<open>p\<close> step because \<open>p < n < p^2\<close>"; "a direct single-step reduction mod \<open>q\<close> is not
      generally valid from the unreduced base"). The spec gives no result outside that range; the
      model fails there.\<close>
  "GFp_BN_reduce_mont a mont =
     (if odd (bn_value (mont_N mont)) \<and> bn_value a < bn_value (mont_N mont) * bn_value (mont_N mont)
      then Some (bn_of_nat (bn_value a mod bn_value (mont_N mont)))
      else None)"

definition GFp_BN_mod_mul_mont :: "BIGNUM \<Rightarrow> BIGNUM \<Rightarrow> BN_MONT_CTX \<Rightarrow> BIGNUM option" where
  \<comment> \<open>Modelled from the spec: \<open>GFp_BN_mod_mul_mont\<close> is absent; section 6, "Montgomery
      multiplication": the product divided by the radix \<open>R\<close>, modulo \<open>N\<close>, so that the factor \<open>R\<close>
      of one Montgomery-encoded operand cancels.\<close>
  "GFp_BN_mod_mul_mont a b mont =
     (case mod_inverse (mont_R mont) (bn_value (mont_N mont)) of
        None \<Rightarrow> None
      | Some Ri \<Rightarrow> Some (bn_of_nat (bn_value a * bn_value b * Ri mod bn_value (mont_N mont))))"

definition GFp_memcmp :: "BN_ULONG list \<Rightarrow> BN_ULONG list \<Rightarrow> nat \<Rightarrow> int" where
  \<comment> \<open>Modelled from the spec: \<open>GFp_memcmp\<close> is absent; it compares the first \<open>n\<close> words of two
      arrays (the C call counts bytes, \<open>n\<close> words of \<open>sizeof(BN_ULONG)\<close> bytes each) and returns
      zero when they are equal.\<close>
  "GFp_memcmp xs ys n = (if take n xs = take n ys then 0 else 1)"

subsection \<open>The blinding context\<close>

definition GFp_BN_BLINDING_convert ::
    "BIGNUM \<Rightarrow> BN_BLINDING \<Rightarrow> RSA \<Rightarrow> RAND \<Rightarrow> (BIGNUM \<times> BN_BLINDING) option" where
  \<comment> \<open>Modelled from the spec: \<open>GFp_BN_BLINDING_convert\<close> is absent; sections 3, 4.3 and 6 and the
      glossary: the context holds "a random blinding factor and its modular inverse"; the base is
      multiplied, modulo \<open>n\<close>, by the factor raised to the public exponent ("a fresh random factor
      and the key's public parameters"); a failure of the randomness source, or a draw with no
      inverse, is a failure. The result is the blinded base and the context afterwards.\<close>
  "GFp_BN_BLINDING_convert n b rsa rng =
     (case rng of
        None \<Rightarrow> None
      | Some r \<Rightarrow>
          (case mod_inverse r (bn_value (mont_N (mont_n rsa))) of
             None \<Rightarrow> None
           | Some ri \<Rightarrow>
               let b' = \<lparr>blinding_A = bn_of_nat (mod_pow r (bn_value (rsa_e rsa)) (bn_value (mont_N (mont_n rsa)))),
                         blinding_Ai = bn_of_nat ri\<rparr>
               in Some (bn_of_nat (bn_value n * bn_value (blinding_A b') mod bn_value (mont_N (mont_n rsa))), b')))"

definition GFp_BN_BLINDING_invert :: "BIGNUM \<Rightarrow> BN_BLINDING \<Rightarrow> BN_MONT_CTX \<Rightarrow> BIGNUM option" where
  \<comment> \<open>Modelled from the spec: \<open>GFp_BN_BLINDING_invert\<close> is absent; section 6,
      "\<open>invert(blinded_result, key) -> result\<close>, using a Montgomery context over the modulus": the
      multiplication by the unblinding factor that removes the blinding.\<close>
  "GFp_BN_BLINDING_invert n b mont =
     Some (bn_of_nat (bn_value n * bn_value (blinding_Ai b) mod bn_value (mont_N mont)))"

subsection \<open>The key validator\<close>

text \<open>
  \<open>GFp_rsa_check_modulus_and_exponent\<close>, lines 75 to 127. The C function returns 1 or 0; the
  model returns \<open>Inr ()\<close> for 1 and \<open>Inl\<close> the reason queued for 0. The bit lengths are
  \<open>unsigned\<close> and the bounds are \<open>size_t\<close>, so the comparisons are between non-negative numbers.
\<close>

definition kMaxExponentBits :: nat where
  "kMaxExponentBits = 33"

definition GFp_rsa_check_modulus_and_exponent ::
    "BIGNUM \<Rightarrow> BIGNUM \<Rightarrow> nat \<Rightarrow> nat \<Rightarrow> rsa_error + unit" where
  "GFp_rsa_check_modulus_and_exponent n e min_bits max_bits =
     (let rsa_bits = GFp_BN_num_bits n in
      if rsa_bits < min_bits then Inl RSA_R_KEY_SIZE_TOO_SMALL
      else if rsa_bits > 16 * 1024 \<or> rsa_bits > max_bits then Inl RSA_R_MODULUS_TOO_LARGE
      else
        let e_bits = GFp_BN_num_bits e in
        if e_bits < 2 then Inl RSA_R_BAD_E_VALUE
        else if e_bits > kMaxExponentBits then Inl RSA_R_BAD_E_VALUE
        else if \<not> GFp_BN_is_odd e then Inl RSA_R_BAD_E_VALUE
        else if rsa_bits \<le> kMaxExponentBits then Inl RSA_R_KEY_SIZE_TOO_SMALL
        else if \<not> (GFp_BN_ucmp n e > 0) then Inl ASSERTION_FAILURE
        else Inr ())"

subsection \<open>The public transform\<close>

text \<open>
  \<open>GFp_rsa_public_decrypt\<close>, lines 143 to 208. A buffer and its length are one list; the result
  is the return value with the reason queued, and the content of \<open>out\<close> when the call returns.
\<close>

definition GFp_rsa_public_decrypt ::
    "u8 list \<Rightarrow> u8 list \<Rightarrow> u8 list \<Rightarrow> u8 list \<Rightarrow> nat \<Rightarrow> nat \<Rightarrow> (rsa_error + unit) \<times> u8 list" where
  "GFp_rsa_public_decrypt out public_key_n public_key_e inp min_bits max_bits =
     (case GFp_BN_bin2bn public_key_n of
        None \<Rightarrow> (Inl ERR_R_INTERNAL_ERROR, out)
      | Some n \<Rightarrow>
     (case GFp_BN_bin2bn public_key_e of
        None \<Rightarrow> (Inl ERR_R_INTERNAL_ERROR, out)
      | Some e \<Rightarrow>
     (let rsa_size = GFp_BN_num_bytes n in
      if length out \<noteq> rsa_size then (Inl RSA_R_OUTPUT_BUFFER_TOO_SMALL, out)
      else if length inp \<noteq> rsa_size then (Inl RSA_R_DATA_LEN_NOT_EQUAL_TO_MOD_LEN, out)
      else
     (case GFp_rsa_check_modulus_and_exponent n e min_bits max_bits of
        Inl reason \<Rightarrow> (Inl reason, out)
      | Inr _ \<Rightarrow>
     (case GFp_BN_bin2bn inp of
        None \<Rightarrow> (Inl ERR_R_INTERNAL_ERROR, out)
      | Some f \<Rightarrow>
      if GFp_BN_ucmp f n \<ge> 0 then (Inl RSA_R_DATA_TOO_LARGE_FOR_MODULUS, out)
      else
     (case GFp_BN_mod_exp_mont_vartime f e n None of
        None \<Rightarrow> (Inl ERR_R_INTERNAL_ERROR, out)
      | Some result \<Rightarrow>
     (case GFp_BN_bn2bin_padded out (length out) result of
        (False, out') \<Rightarrow> (Inl ERR_R_INTERNAL_ERROR, out')
      | (True, out') \<Rightarrow> (Inr (), out'))))))))"

subsection \<open>The private transform\<close>

text \<open>\<open>GFp_RSA_size\<close>, lines 129 to 131: the byte length of the modulus.\<close>

definition GFp_RSA_size :: "RSA \<Rightarrow> nat" where
  "GFp_RSA_size rsa = GFp_BN_num_bytes (mont_N (mont_n rsa))"

text \<open>
  \<open>GFp_rsa_private_transform\<close>, lines 219 to 332. The function is one chain of steps, each
  leaving through \<open>goto err\<close> when it fails. The model names four stretches of the chain, so that
  the theorems can speak of the values between them, and composes them in the order of the C text.
  In a condition \<open>!f(..) || !g(..)\<close> the call \<open>g\<close> runs only when \<open>f\<close> has succeeded.

  Lines 252 to 260: \<open>mp := base^dmp1 mod p\<close>.
\<close>

definition private_transform_mp :: "RSA \<Rightarrow> BIGNUM \<Rightarrow> BIGNUM option" where
  "private_transform_mp rsa base =
     (case GFp_BN_reduce_mont base (mont_p rsa) of
        None \<Rightarrow> None
      | Some tmp \<Rightarrow> GFp_BN_mod_exp_mont_consttime tmp (dmp1 rsa) (mont_p rsa))"

text \<open>Lines 262 to 271: \<open>mq := base^dmq1 mod q\<close>, the base reduced in two steps.\<close>

definition private_transform_mq :: "RSA \<Rightarrow> BIGNUM \<Rightarrow> BIGNUM option" where
  "private_transform_mq rsa base =
     (case GFp_BN_reduce_mont base (mont_qq rsa) of
        None \<Rightarrow> None
      | Some tmp \<Rightarrow>
     (case GFp_BN_reduce_mont tmp (mont_q rsa) of
        None \<Rightarrow> None
      | Some tmp' \<Rightarrow> GFp_BN_mod_exp_mont_consttime tmp' (dmq1 rsa) (mont_q rsa)))"

text \<open>Lines 273 to 291: the recombination of \<open>mp\<close> and \<open>mq\<close> into \<open>r\<close>.\<close>

definition private_transform_garner :: "RSA \<Rightarrow> BIGNUM \<Rightarrow> BIGNUM \<Rightarrow> BIGNUM option" where
  "private_transform_garner rsa mp mq =
     (let p = mont_N (mont_p rsa) in
      case GFp_BN_mod_sub_quick mp mq p of
        None \<Rightarrow> None
      | Some tmp \<Rightarrow>
     (case GFp_BN_mod_mul_mont tmp (iqmp_mont rsa) (mont_p rsa) of
        None \<Rightarrow> None
      | Some tmp' \<Rightarrow>
     (case GFp_BN_mod_mul_mont tmp' (qmn_mont rsa) (mont_n rsa) of
        None \<Rightarrow> None
      | Some tmp'' \<Rightarrow> GFp_BN_add tmp'' mq)))"

text \<open>
  Lines 293 to 322: the verification of \<open>r\<close> against the blinded base, the unblinding and the
  write to the caller's buffer. The result is the return value with the reason queued, and the
  content of \<open>inout\<close> afterwards.
\<close>

definition private_transform_release ::
    "RSA \<Rightarrow> BN_BLINDING \<Rightarrow> BIGNUM \<Rightarrow> BIGNUM \<Rightarrow> u8 list \<Rightarrow> (rsa_error + unit) \<times> u8 list" where
  "private_transform_release rsa blinding base r inout =
     (case GFp_BN_mod_exp_mont_vartime r (rsa_e rsa) (mont_N (mont_n rsa)) (Some (mont_n rsa)) of
        None \<Rightarrow> (Inl ERR_R_INTERNAL_ERROR, inout)
      | Some vrfy \<Rightarrow>
      if bn_top vrfy \<noteq> bn_top base \<or> GFp_memcmp (bn_d vrfy) (bn_d base) (bn_top vrfy) \<noteq> 0
      then (Inl ERR_R_INTERNAL_ERROR, inout)
      else
     (case GFp_BN_BLINDING_invert r blinding (mont_n rsa) of
        None \<Rightarrow> (Inl ERR_R_INTERNAL_ERROR, inout)
      | Some r' \<Rightarrow>
     (case GFp_BN_bn2bin_padded inout (length inout) r' of
        (False, inout') \<Rightarrow> (Inl ERR_R_INTERNAL_ERROR, inout')
      | (True, inout') \<Rightarrow> (Inr (), inout'))))"

text \<open>
  The whole function. The result is the return value with the reason queued, the content of
  \<open>inout\<close> and the blinding context when the call returns.
\<close>

definition GFp_rsa_private_transform ::
    "RSA \<Rightarrow> u8 list \<Rightarrow> BN_BLINDING \<Rightarrow> RAND \<Rightarrow> (rsa_error + unit) \<times> u8 list \<times> BN_BLINDING" where
  "GFp_rsa_private_transform rsa inout blinding rng =
     (case GFp_BN_bin2bn inout of
        None \<Rightarrow> (Inl NO_REASON, inout, blinding)
      | Some base \<Rightarrow>
      if GFp_BN_ucmp base (mont_N (mont_n rsa)) \<ge> 0
      then (Inl RSA_R_DATA_TOO_LARGE_FOR_MODULUS, inout, blinding)
      else
     (case GFp_BN_BLINDING_convert base blinding rsa rng of
        None \<Rightarrow> (Inl ERR_R_INTERNAL_ERROR, inout, blinding)
      | Some (base', blinding') \<Rightarrow>
     (let p = mont_N (mont_p rsa) in
      if \<not> (GFp_BN_cmp (mont_N (mont_q rsa)) p < 0)
      then (Inl ASSERTION_FAILURE, inout, blinding')
      else
     (case private_transform_mp rsa base' of
        None \<Rightarrow> (Inl ERR_R_INTERNAL_ERROR, inout, blinding')
      | Some mp \<Rightarrow>
     (case private_transform_mq rsa base' of
        None \<Rightarrow> (Inl ERR_R_INTERNAL_ERROR, inout, blinding')
      | Some mq \<Rightarrow>
     (case private_transform_garner rsa mp mq of
        None \<Rightarrow> (Inl ERR_R_INTERNAL_ERROR, inout, blinding')
      | Some r \<Rightarrow>
     (case private_transform_release rsa blinding' base' r inout of
        (ret, inout') \<Rightarrow> (ret, inout', blinding'))))))))"

subsection \<open>Primes\<close>

text \<open>The primes \<open>p\<close> and \<open>q\<close> of a private key: a number above 1 with no divisor in between.\<close>

definition is_prime :: "nat \<Rightarrow> bool" where
  "is_prime p = (1 < p \<and> (\<forall>d\<in>{2..<p}. \<not> d dvd p))"

text \<open>Trial division up to the square root, by which a concrete number is shown prime.\<close>

function no_divisor :: "nat \<Rightarrow> nat \<Rightarrow> bool" where
  "no_divisor d p =
     (if d = 0 \<or> p < d * d then True
      else if d dvd p then False
      else no_divisor (Suc d) p)"
  by pat_completeness auto
termination
proof (relation "measure (\<lambda>(d, p). Suc p - d)")
  show "wf (measure (\<lambda>(d, p). Suc p - d))" by simp
next
  fix d p :: nat
  assume "\<not> (d = 0 \<or> p < d * d)"
  then have "0 < d" "d * d \<le> p" by simp_all
  then have "d \<le> p" by (metis le_trans le_square)
  then show "((Suc d, p), (d, p)) \<in> measure (\<lambda>(d, p). Suc p - d)" by simp
qed

declare no_divisor.simps [simp del]

subsection \<open>Consistent private keys\<close>

text \<open>
  What the transforms expect of a private key (section 3 of the specification): \<open>p\<close> and \<open>q\<close>
  are primes with \<open>q < p\<close>, the Montgomery contexts are those of \<open>n = p * q\<close>, \<open>p\<close>, \<open>q\<close> and
  \<open>q^2\<close>, the exponent \<open>d\<close> undoes \<open>e\<close> modulo \<open>p - 1\<close> and modulo \<open>q - 1\<close>, \<open>dmp1\<close> and \<open>dmq1\<close> are
  \<open>d\<close> reduced, \<open>iqmp\<close> is the inverse of \<open>q\<close> modulo \<open>p\<close>, and \<open>iqmp_mont\<close> and \<open>qmn_mont\<close> are \<open>iqmp\<close>
  and \<open>q\<close> in Montgomery form modulo \<open>p\<close> and modulo \<open>n\<close>.
\<close>

definition private_key_ok :: "RSA \<Rightarrow> nat \<Rightarrow> nat \<Rightarrow> nat \<Rightarrow> nat \<Rightarrow> bool" where
  "private_key_ok rsa p q d iqmp \<longleftrightarrow>
     is_prime p \<and> is_prime q \<and> q < p
     \<and> bn_value (mont_N (mont_n rsa)) = p * q
     \<and> bn_value (mont_N (mont_p rsa)) = p
     \<and> bn_value (mont_N (mont_q rsa)) = q
     \<and> bn_value (mont_N (mont_qq rsa)) = q * q
     \<and> bn_value (rsa_e rsa) * d mod (p - 1) = 1
     \<and> bn_value (rsa_e rsa) * d mod (q - 1) = 1
     \<and> bn_value (dmp1 rsa) = d mod (p - 1)
     \<and> bn_value (dmq1 rsa) = d mod (q - 1)
     \<and> q * iqmp mod p = 1
     \<and> bn_value (iqmp_mont rsa) = iqmp * mont_R (mont_p rsa) mod p
     \<and> bn_value (qmn_mont rsa) = q * mont_R (mont_n rsa) mod (p * q)"

text \<open>
  A small key for the concrete checks: \<open>p = 131071\<close>, \<open>q = 65537\<close>, \<open>n = 8590000127\<close> (34 bits),
  \<open>e = 7\<close>, \<open>d = 1840672183\<close>, \<open>iqmp = 43691\<close>; every number fits one machine word, so the
  Montgomery radix is \<open>2^64\<close>.
\<close>

definition example_key :: RSA where
  "example_key =
     \<lparr>rsa_e = bn_of_nat 7, dmp1 = bn_of_nat 56173, dmq1 = bn_of_nat 28087,
      mont_n = \<lparr>mont_N = bn_of_nat 8590000127\<rparr>,
      mont_p = \<lparr>mont_N = bn_of_nat 131071\<rparr>,
      mont_q = \<lparr>mont_N = bn_of_nat 65537\<rparr>,
      mont_qq = \<lparr>mont_N = bn_of_nat 4295098369\<rparr>,
      qmn_mont = bn_of_nat 536879104, iqmp_mont = bn_of_nat 92842\<rparr>"

definition example_blinding :: BN_BLINDING where
  "example_blinding = \<lparr>blinding_A = bn_of_nat 1, blinding_Ai = bn_of_nat 1\<rparr>"

text \<open>
  The smallest consistent key: \<open>p = 5\<close>, \<open>q = 3\<close>, \<open>n = 15\<close>, \<open>e = 3\<close>, \<open>d = 3\<close>, \<open>iqmp = 2\<close>
  (\<open>2^64\<close> is 1 modulo 5 and modulo 15, so the Montgomery forms of 2 and 3 are 2 and 3).
\<close>

definition small_key :: RSA where
  "small_key =
     \<lparr>rsa_e = bn_of_nat 3, dmp1 = bn_of_nat 3, dmq1 = bn_of_nat 1,
      mont_n = \<lparr>mont_N = bn_of_nat 15\<rparr>,
      mont_p = \<lparr>mont_N = bn_of_nat 5\<rparr>,
      mont_q = \<lparr>mont_N = bn_of_nat 3\<rparr>,
      mont_qq = \<lparr>mont_N = bn_of_nat 9\<rparr>,
      qmn_mont = bn_of_nat 3, iqmp_mont = bn_of_nat 2\<rparr>"

text \<open>
  The same key with a wrong \<open>dmp1\<close> (2 in place of 3): the CRT exponentiation modulo \<open>p\<close> then
  yields a wrong \<open>mp\<close>, as a fault in that exponentiation would.
\<close>

definition faulty_key :: RSA where
  "faulty_key =
     \<lparr>rsa_e = bn_of_nat 3, dmp1 = bn_of_nat 2, dmq1 = bn_of_nat 1,
      mont_n = \<lparr>mont_N = bn_of_nat 15\<rparr>,
      mont_p = \<lparr>mont_N = bn_of_nat 5\<rparr>,
      mont_q = \<lparr>mont_N = bn_of_nat 3\<rparr>,
      mont_qq = \<lparr>mont_N = bn_of_nat 9\<rparr>,
      qmn_mont = bn_of_nat 3, iqmp_mont = bn_of_nat 2\<rparr>"

text \<open>
  A key with primes of different sizes: \<open>p = 11\<close>, \<open>q = 3\<close>, \<open>n = 33\<close>, \<open>e = 3\<close>, \<open>d = 7\<close>,
  \<open>iqmp = 4\<close> (\<open>2^64\<close> is 5 modulo 11 and 16 modulo 33). Here \<open>n\<close> is above \<open>q^3 = 27\<close>.
\<close>

definition lopsided_key :: RSA where
  "lopsided_key =
     \<lparr>rsa_e = bn_of_nat 3, dmp1 = bn_of_nat 7, dmq1 = bn_of_nat 1,
      mont_n = \<lparr>mont_N = bn_of_nat 33\<rparr>,
      mont_p = \<lparr>mont_N = bn_of_nat 11\<rparr>,
      mont_q = \<lparr>mont_N = bn_of_nat 3\<rparr>,
      mont_qq = \<lparr>mont_N = bn_of_nat 9\<rparr>,
      qmn_mont = bn_of_nat 15, iqmp_mont = bn_of_nat 9\<rparr>"

section \<open>Arithmetic lemmas\<close>

lemma mod_pow_code:
  "mod_pow a k m =
     (if k = 0 then 1 mod m
      else let h = mod_pow (a * a mod m) (k div 2) m in if odd k then a * h mod m else h)"
proof (cases "k = 0")
  case True
  then show ?thesis by (simp add: mod_pow_def)
next
  case False
  have sq: "(a * a mod m) ^ (k div 2) mod m = a ^ (2 * (k div 2)) mod m"
    by (simp add: power_mult power2_eq_square power_mod)
  show ?thesis
  proof (cases "odd k")
    case True
    then have k: "k = Suc (2 * (k div 2))" by presburger
    have "a ^ k mod m = a * a ^ (2 * (k div 2)) mod m"
      using k by (metis power_Suc)
    also have "\<dots> = a * ((a * a mod m) ^ (k div 2) mod m) mod m"
      by (simp add: sq mod_mult_right_eq)
    finally show ?thesis using False True by (simp add: mod_pow_def Let_def)
  next
    case even: False
    then have k: "k = 2 * (k div 2)" by presburger
    have "a ^ k mod m = (a * a mod m) ^ (k div 2) mod m"
      using k sq by metis
    then show ?thesis using False even by (simp add: mod_pow_def Let_def)
  qed
qed


lemma is_prime_divisors: "is_prime p \<Longrightarrow> d dvd p \<Longrightarrow> d = 1 \<or> d = p"
proof -
  assume p: "is_prime p" and d: "d dvd p"
  have "0 < p" using p by (simp add: is_prime_def)
  then have "d \<le> p" "d \<noteq> 0" using d by (auto dest: dvd_imp_le)
  then show ?thesis using p d by (cases "d = 1 \<or> d = p") (auto simp: is_prime_def)
qed

lemma is_prime_coprime: "is_prime p \<Longrightarrow> \<not> p dvd a \<Longrightarrow> coprime p a"
proof (rule coprimeI)
  fix c assume p: "is_prime p" and na: "\<not> p dvd a" and c: "c dvd p" "c dvd a"
  from is_prime_divisors [OF p c(1)] c(2) na show "is_unit c" by auto
qed

lemma is_prime_dvd_mult:
  assumes "is_prime p" "p dvd a * b"
  shows "p dvd a \<or> p dvd b"
proof (cases "p dvd a")
  case True
  then show ?thesis by simp
next
  case False
  then have "coprime p a" using assms(1) by (simp add: is_prime_coprime)
  then have "p dvd b" using assms(2) by (simp add: coprime_dvd_mult_right_iff)
  then show ?thesis by simp
qed

lemma is_prime_dvd_choose:
  assumes "is_prime p" "0 < k" "k < p"
  shows "p dvd (p choose k)"
proof -
  have "k * (p choose k) = p * (p - 1 choose (k - 1))"
    using assms(2) by (rule times_binomial_minus1_eq)
  then have "p dvd k * (p choose k)" by simp
  moreover have "\<not> p dvd k" using assms(2,3) by (auto dest: dvd_imp_le)
  ultimately show ?thesis using is_prime_dvd_mult [OF assms(1), of k "p choose k"] by simp
qed

lemma fermat_little: 
  assumes p: "is_prime p"
  shows "a ^ p mod p = a mod p"
proof (induction a)
  case 0
  have "0 < p" using p by (simp add: is_prime_def)
  then show ?case by (simp add: zero_power)
next
  case (Suc a)
  obtain n where n: "p = Suc n" using p by (cases p) (auto simp: is_prime_def)
  let ?f = "\<lambda>k. (p choose k) * a ^ k"
  have "(a + 1) ^ p = (\<Sum>k\<le>p. ?f k)"
    using binomial [of a 1 p] by simp
  also have "\<dots> = (\<Sum>k\<le>n. ?f k) + a ^ p"
    by (simp add: n)
  also have "(\<Sum>k\<le>n. ?f k) = 1 + (\<Sum>k\<in>{1..n}. ?f k)"
    by (simp add: atMost_atLeast0 sum.atLeast_Suc_atMost)
  finally have eq: "(a + 1) ^ p = 1 + (\<Sum>k\<in>{1..n}. ?f k) + a ^ p" .
  have "p dvd (\<Sum>k\<in>{1..n}. ?f k)"
  proof (rule dvd_sum)
    fix k assume "k \<in> {1..n}"
    then have "0 < k" "k < p" using n by auto
    then show "p dvd ?f k" using is_prime_dvd_choose [OF p] by simp
  qed
  then have S0: "(\<Sum>k\<in>{1..n}. ?f k) mod p = 0"
    by simp
  have "(a + 1) ^ p mod p = ((\<Sum>k\<in>{1..n}. ?f k) + (1 + a ^ p)) mod p"
    unfolding eq by (simp only: ac_simps)
  also have "\<dots> = ((\<Sum>k\<in>{1..n}. ?f k) mod p + (1 + a ^ p)) mod p"
    by (simp only: mod_add_left_eq)
  also have "\<dots> = (1 + a ^ p) mod p"
    by (simp only: S0 add_0)
  also have "\<dots> = (1 + a ^ p mod p) mod p"
    by (simp only: mod_add_right_eq)
  also have "\<dots> = (1 + a) mod p"
    by (simp only: Suc.IH mod_add_right_eq)
  finally show ?case by simp
qed

lemma fermat_unit:
  assumes p: "is_prime p" and a: "\<not> p dvd a"
  shows "a ^ (p - 1) mod p = 1"
proof -
  have p1: "1 < p" using p by (simp add: is_prime_def)
  have a0: "0 < a" using a by (cases a) auto
  have "a ^ p = a * a ^ (p - 1)" using p1 by (cases p) simp_all
  then have "(a * a ^ (p - 1)) mod p = (a * 1) mod p" using fermat_little [OF p, of a] by simp
  moreover have "a * 1 \<le> a * a ^ (p - 1)" using a0 by simp
  ultimately have "p dvd a * a ^ (p - 1) - a * 1" by (simp add: mod_eq_dvd_iff_nat)
  then have "p dvd a * (a ^ (p - 1) - 1)" by (simp add: right_diff_distrib')
  then have "p dvd a ^ (p - 1) - 1" using is_prime_dvd_mult [OF p, of a "a ^ (p - 1) - 1"] a by simp
  moreover have "1 \<le> a ^ (p - 1)" using a0 by simp
  ultimately have "a ^ (p - 1) mod p = 1 mod p"
    using mod_eq_dvd_iff_nat [of 1 "a ^ (p - 1)" p] by blast
  then show ?thesis using p1 by simp
qed

lemma pow_mod_prime_reduce:
  assumes p: "is_prime p" and d: "0 < d mod (p - 1)"
  shows "a ^ (d mod (p - 1)) mod p = a ^ d mod p"
proof (cases "p dvd a")
  case True
  have "0 < d" using d by (cases d) auto
  then have "a dvd a ^ d" "a dvd a ^ (d mod (p - 1))" using d by (simp_all add: dvd_power)
  then have "p dvd a ^ d" "p dvd a ^ (d mod (p - 1))" using True by (blast intro: dvd_trans)+
  then show ?thesis by (simp add: dvd_eq_mod_eq_0)
next
  case False
  have "a ^ d = a ^ ((p - 1) * (d div (p - 1)) + d mod (p - 1))"
    by simp
  also have "\<dots> = (a ^ (p - 1)) ^ (d div (p - 1)) * a ^ (d mod (p - 1))"
    by (simp only: power_add power_mult)
  finally have "a ^ d = (a ^ (p - 1)) ^ (d div (p - 1)) * a ^ (d mod (p - 1))" .
  then have "a ^ d mod p = ((a ^ (p - 1) mod p) ^ (d div (p - 1)) mod p) * (a ^ (d mod (p - 1)) mod p) mod p"
    by (simp add: mod_mult_eq power_mod)
  then show ?thesis using fermat_unit [OF p False] by simp
qed

lemma rsa_exponent_pos:
  fixes e d p :: nat
  assumes "e * d mod (p - 1) = 1"
  shows "0 < d mod (p - 1)"
proof (rule ccontr)
  assume "\<not> 0 < d mod (p - 1)"
  then have z: "d mod (p - 1) = 0" by simp
  have "e * d mod (p - 1) = e * (d mod (p - 1)) mod (p - 1)"
    by (simp only: mod_mult_right_eq)
  also have "\<dots> = 0" by (simp only: z mult_0_right mod_0)
  finally show False using assms by simp
qed

lemma rsa_exponent_cancel:
  assumes p: "is_prime p" and ed: "e * d mod (p - 1) = 1"
  shows "a ^ (e * d) mod p = a mod p"
  using pow_mod_prime_reduce [OF p, of "e * d" a] ed by simp

lemma crt_unique:
  fixes x y :: nat
  assumes "coprime p q" "x mod p = y mod p" "x mod q = y mod q"
  shows "x mod (p * q) = y mod (p * q)"
proof -
  have *: "x mod (p * q) = y mod (p * q)" if le: "y \<le> x" and xp: "x mod p = y mod p" and xq: "x mod q = y mod q" for x y :: nat
  proof -
    have "p dvd x - y" "q dvd x - y" using le xp xq by (simp_all add: mod_eq_dvd_iff_nat)
    then have "p * q dvd x - y" using assms(1) by (rule divides_mult)
    then show ?thesis using le by (simp add: mod_eq_dvd_iff_nat)
  qed
  show ?thesis
  proof (cases "y \<le> x")
    case True then show ?thesis using * [of y x] assms by simp
  next
    case False then have "x \<le> y" by simp
    then show ?thesis using * [of x y] assms by simp
  qed
qed

lemma primes_coprime: "is_prime p \<Longrightarrow> is_prime q \<Longrightarrow> q < p \<Longrightarrow> coprime p q"
proof (rule is_prime_coprime)
  assume "is_prime q" "q < p"
  then show "\<not> p dvd q" by (auto simp: is_prime_def dest: dvd_imp_le)
qed

lemma no_divisor_iff:
  "0 < d \<Longrightarrow> no_divisor d p \<longleftrightarrow> (\<forall>k. d \<le> k \<and> k * k \<le> p \<longrightarrow> \<not> k dvd p)"
proof (induction d p rule: no_divisor.induct)
  case (1 d p)
  show ?case
  proof (cases "p < d * d")
    case True
    have "p < k * k" if "d \<le> k" for k
      using True that by (meson le_trans mult_le_mono not_le)
    then have "\<forall>k. d \<le> k \<and> k * k \<le> p \<longrightarrow> \<not> k dvd p"
      by (auto simp: not_le [symmetric])
    moreover have "no_divisor d p" using True by (subst no_divisor.simps) simp
    ultimately show ?thesis by blast
  next
    case False
    show ?thesis
    proof (cases "d dvd p")
      case True
      then show ?thesis using False "1.prems"
        by (subst no_divisor.simps) (auto simp: not_less)
    next
      case nd: False
      have ih: "no_divisor (Suc d) p \<longleftrightarrow> (\<forall>k. Suc d \<le> k \<and> k * k \<le> p \<longrightarrow> \<not> k dvd p)"
        using "1.IH" "1.prems" False nd by simp
      have "(\<forall>k. d \<le> k \<and> k * k \<le> p \<longrightarrow> \<not> k dvd p)
          \<longleftrightarrow> (\<forall>k. Suc d \<le> k \<and> k * k \<le> p \<longrightarrow> \<not> k dvd p)"
        using nd by (metis Suc_leI le_neq_implies_less Suc_leD)
      then show ?thesis using False nd "1.prems" ih
        by (subst no_divisor.simps) simp
    qed
  qed
qed

lemma is_prime_trial: "is_prime p \<longleftrightarrow> 1 < p \<and> no_divisor 2 p"
proof (cases "1 < p")
  case False
  then show ?thesis by (simp add: is_prime_def)
next
  case p: True
  have "(\<forall>d\<in>{2..<p}. \<not> d dvd p) \<longleftrightarrow> (\<forall>k. 2 \<le> k \<and> k * k \<le> p \<longrightarrow> \<not> k dvd p)"
  proof
    assume all: "\<forall>d\<in>{2..<p}. \<not> d dvd p"
    show "\<forall>k. 2 \<le> k \<and> k * k \<le> p \<longrightarrow> \<not> k dvd p"
    proof (intro allI impI)
      fix k assume k: "2 \<le> k \<and> k * k \<le> p"
      then have "k < k * k" by simp
      then have "k < p" using k by linarith
      then have "k \<in> {2..<p}" using k by simp
      then show "\<not> k dvd p" using all by blast
    qed
  next
    assume small: "\<forall>k. 2 \<le> k \<and> k * k \<le> p \<longrightarrow> \<not> k dvd p"
    show "\<forall>d\<in>{2..<p}. \<not> d dvd p"
    proof
      fix d assume d: "d \<in> {2..<p}"
      show "\<not> d dvd p"
      proof
        assume "d dvd p"
        then obtain j where j: "p = d * j" by (auto simp: dvd_def)
        have j2: "2 \<le> j" using d j by (cases j; cases "j - 1") auto
        have "d * d \<le> p \<or> j * j \<le> p"
          using j by (cases "d \<le> j") (simp_all add: mult_le_mono)
        moreover have "j dvd p" using j by simp
        ultimately show False using small d j2 \<open>d dvd p\<close> by auto
      qed
    qed
  qed
  then show ?thesis using p by (simp add: is_prime_def no_divisor_iff)
qed

lemma is_prime_odd: "is_prime p \<Longrightarrow> p \<noteq> 2 \<Longrightarrow> odd p"
proof
  assume p: "is_prime p" "p \<noteq> 2" and "even p"
  then have "p = 1 \<or> 2 = p" using is_prime_divisors [of p 2] by auto
  then show False using p by (auto simp: is_prime_def)
qed

lemma is_prime_131071: "is_prime 131071"
  by (simp add: is_prime_trial no_divisor.simps)

lemma is_prime_65537: "is_prime 65537"
  by (simp add: is_prime_trial no_divisor.simps)

lemma limbs_value_nat_limbs [simp]: "limbs_value (nat_limbs n) = n"
proof (induction n rule: nat_limbs.induct)
  case (1 n)
  show ?case
  proof (cases "n = 0")
    case True
    then show ?thesis by (simp add: nat_limbs.simps)
  next
    case False
    have w: "unat (word_of_nat (n mod 2 ^ 64) :: BN_ULONG) = n mod 2 ^ 64"
      by (simp add: unat_of_nat)
    have "limbs_value (nat_limbs n) = n mod 2 ^ 64 + 2 ^ 64 * limbs_value (nat_limbs (n div 2 ^ 64))"
      using False w by (subst nat_limbs.simps) simp
    then show ?thesis using 1 False by simp
  qed
qed

lemma bn_value_of_nat [simp]: "bn_value (bn_of_nat n) = n"
  by (simp add: bn_value_def bn_of_nat_def)

lemma bn_of_nat_eq_iff: "bn_of_nat a = bn_of_nat b \<longleftrightarrow> a = b"
  by (metis bn_value_of_nat)

lemma length_be_bytes [simp]: "length (be_bytes len x) = len"
  by (induction len) simp_all

lemma foldl_be_shift:
  fixes bs :: "u8 list"
  shows "foldl (\<lambda>acc b. acc * 256 + unat b) acc bs =
     acc * 256 ^ length bs + foldl (\<lambda>acc b. acc * 256 + unat b) 0 bs"
proof (induction bs arbitrary: acc)
  case Nil
  show ?case by simp
next
  case (Cons b bs)
  let ?f = "\<lambda>acc (b :: u8). acc * 256 + unat b"
  have "foldl ?f acc (b # bs) = foldl ?f (acc * 256 + unat b) bs"
    by simp
  also have "\<dots> = (acc * 256 + unat b) * 256 ^ length bs + foldl ?f 0 bs"
    by (rule Cons.IH)
  finally have L: "foldl ?f acc (b # bs) = (acc * 256 + unat b) * 256 ^ length bs + foldl ?f 0 bs" .
  have "foldl ?f 0 (b # bs) = foldl ?f (unat b) bs"
    by simp
  also have "\<dots> = unat b * 256 ^ length bs + foldl ?f 0 bs"
    by (rule Cons.IH)
  finally have R: "foldl ?f 0 (b # bs) = unat b * 256 ^ length bs + foldl ?f 0 bs" .
  show ?case unfolding L R by (simp add: algebra_simps)
qed

lemma be_value_Nil [simp]: "be_value [] = 0"
  by (simp add: be_value_def)

lemma be_value_Cons: "be_value (b # bs) = unat b * 256 ^ length bs + be_value bs"
  using foldl_be_shift [of "unat b" bs] by (simp add: be_value_def)

lemma be_value_bound: "be_value bs < 256 ^ length bs"
proof (induction bs)
  case Nil
  show ?case by simp
next
  case (Cons b bs)
  have "unat b < 256" using unsigned_less [of b, where ?'a = nat] by simp
  then have "unat b * 256 ^ length bs \<le> 255 * 256 ^ length bs"
    by (intro mult_le_mono1) simp
  then have "unat b * 256 ^ length bs + be_value bs < 256 * 256 ^ length bs"
    using Cons.IH by linarith
  then show ?case by (simp add: be_value_Cons)
qed

lemma be_value_be_bytes: "be_value (be_bytes len x) = x mod 256 ^ len"
proof (induction len)
  case 0
  show ?case by simp
next
  case (Suc len)
  have w: "unat (word_of_nat (x div 256 ^ len mod 256) :: u8) = x div 256 ^ len mod 256"
    by (simp add: unat_of_nat)
  have "x mod (256 ^ len * 256) = 256 ^ len * (x div 256 ^ len mod 256) + x mod 256 ^ len"
    by (rule mod_mult2_eq)
  then have "x mod 256 ^ Suc len = x div 256 ^ len mod 256 * 256 ^ len + x mod 256 ^ len"
    by (simp only: power_Suc2 mult.commute)
  then show ?case by (simp add: be_value_Cons w Suc.IH)
qed

lemma be_bytes_cong: "x mod 256 ^ len = y mod 256 ^ len \<Longrightarrow> be_bytes len x = be_bytes len y"
proof (induction len)
  case 0
  show ?case by simp
next
  case (Suc len)
  have split: "z mod (256 ^ len * 256) = 256 ^ len * (z div 256 ^ len mod 256) + z mod 256 ^ len"
    for z :: nat
    by (rule mod_mult2_eq)
  have hd: "z div 256 ^ len mod 256 = z mod (256 ^ len * 256) div 256 ^ len" for z :: nat
    unfolding split by simp
  have tl: "z mod 256 ^ len = z mod (256 ^ len * 256) mod 256 ^ len" for z :: nat
    unfolding split by simp
  have prem: "x mod (256 ^ len * 256) = y mod (256 ^ len * 256)"
    using Suc.prems by (simp only: power_Suc2)
  have "x mod 256 ^ len = y mod 256 ^ len"
    using prem tl [of x] tl [of y] by simp
  then have "be_bytes len x = be_bytes len y" by (rule Suc.IH)
  moreover have "x div 256 ^ len mod 256 = y div 256 ^ len mod 256"
    using prem hd [of x] hd [of y] by simp
  ultimately show ?case by simp
qed

lemma be_bytes_be_value: "be_bytes (length bs) (be_value bs) = bs"
proof (induction bs)
  case Nil
  show ?case by simp
next
  case (Cons b bs)
  have lt: "be_value bs < 256 ^ length bs" by (rule be_value_bound)
  have d: "be_value (b # bs) div 256 ^ length bs = unat b"
    using lt by (simp add: be_value_Cons)
  have b: "unat b mod 256 = unat b" using unsigned_less [of b, where ?'a = nat] by simp
  have "be_value (b # bs) mod 256 ^ length bs = be_value bs mod 256 ^ length bs"
    by (simp add: be_value_Cons)
  then have tl: "be_bytes (length bs) (be_value (b # bs)) = be_bytes (length bs) (be_value bs)"
    by (rule be_bytes_cong)
  show ?case by (simp add: d b tl Cons.IH)
qed

lemma num_bits_upper: "n < 2 ^ num_bits_nat n"
proof (induction n rule: num_bits_nat.induct)
  case (1 n)
  show ?case
  proof (cases "n = 0")
    case True
    then show ?thesis by simp
  next
    case False
    then have "n div 2 < 2 ^ num_bits_nat (n div 2)" by (rule 1)
    then have "n < 2 * 2 ^ num_bits_nat (n div 2)" by linarith
    then show ?thesis using False by (subst num_bits_nat.simps) simp
  qed
qed

lemma num_bits_lower: "0 < n \<Longrightarrow> 2 ^ (num_bits_nat n - 1) \<le> n"
proof (induction n rule: num_bits_nat.induct)
  case (1 n)
  then have n: "n \<noteq> 0" by simp
  show ?case
  proof (cases "n div 2 = 0")
    case True
    then have "num_bits_nat n = 1" using n
      by (subst num_bits_nat.simps) (simp add: num_bits_nat.simps [of 0])
    then show ?thesis using 1 by simp
  next
    case False
    then have "2 ^ (num_bits_nat (n div 2) - 1) \<le> n div 2" using 1 n by simp
    moreover have "0 < num_bits_nat (n div 2)" using False by (subst num_bits_nat.simps) simp
    ultimately have "2 ^ num_bits_nat (n div 2) \<le> 2 * (n div 2)"
      by (cases "num_bits_nat (n div 2)") simp_all
    then have "2 ^ num_bits_nat (n div 2) \<le> n" by linarith
    then show ?thesis using n by (subst num_bits_nat.simps) simp
  qed
qed

lemma num_bits_less: "num_bits_nat a < num_bits_nat b \<Longrightarrow> a < b"
proof -
  assume lt: "num_bits_nat a < num_bits_nat b"
  then have b: "0 < b" by (cases "b = 0") (simp_all add: num_bits_nat.simps [of 0])
  have "a < 2 ^ num_bits_nat a" by (rule num_bits_upper)
  also have "(2::nat) ^ num_bits_nat a \<le> 2 ^ (num_bits_nat b - 1)"
    using lt by (intro power_increasing) simp_all
  also have "\<dots> \<le> b" using b by (rule num_bits_lower)
  finally show ?thesis .
qed

lemma num_bytes_bound: "x < 256 ^ ((num_bits_nat x + 7) div 8)"
proof -
  have "x < 2 ^ num_bits_nat x" by (rule num_bits_upper)
  also have "(2::nat) ^ num_bits_nat x \<le> 2 ^ (8 * ((num_bits_nat x + 7) div 8))"
    by (intro power_increasing) simp_all
  also have "\<dots> = 256 ^ ((num_bits_nat x + 7) div 8)"
    by (simp add: power_mult)
  finally show ?thesis .
qed

lemma egcd_correct: "egcd a b = (g, x, y) \<Longrightarrow> int a * x + int b * y = int g \<and> g = gcd a b"
proof (induction a b arbitrary: g x y rule: egcd.induct)
  case (1 a b)
  show ?case
  proof (cases "b = 0")
    case True
    then show ?thesis using "1.prems" by (simp add: egcd.simps [of a 0])
  next
    case False
    obtain g' x' y' where rec: "egcd b (a mod b) = (g', x', y')"
      by (cases "egcd b (a mod b)") auto
    from "1.IH" [OF False rec]
    have ih: "int b * x' + int (a mod b) * y' = int g'" and g': "g' = gcd b (a mod b)"
      by simp_all
    have "egcd a b = (g', y', x' - int (a div b) * y')"
      using False rec by (simp add: egcd.simps [of a b])
    then have res: "g = g'" "x = y'" "y = x' - int (a div b) * y'"
      using "1.prems" by auto
    have "int a = int b * int (a div b) + int (a mod b)"
      by (metis mult_div_mod_eq of_nat_add of_nat_mult)
    then have "int a * y' + int b * (x' - int (a div b) * y') = int b * x' + int (a mod b) * y'"
      by (simp add: algebra_simps)
    moreover have "gcd b (a mod b) = gcd a b"
      by (metis gcd.commute gcd_red_nat)
    ultimately show ?thesis using ih g' res by simp
  qed
qed

lemma mod_inverse_correct:
  assumes "coprime a m" "1 < m"
  shows "\<exists>x. mod_inverse a m = Some x \<and> x < m \<and> a * x mod m = 1"
proof -
  obtain g x y where e: "egcd a m = (g, x, y)"
    by (cases "egcd a m") auto
  from egcd_correct [OF e] assms(1)
  have bez: "int a * x + int m * y = 1" and g: "g = 1"
    by simp_all
  let ?x = "nat (x mod int m)"
  have inv: "mod_inverse a m = Some ?x"
    using e g by (simp add: mod_inverse_def)
  have lt: "?x < m" using assms(2) by (simp add: nat_less_iff)
  have "int (a * ?x mod m) = int a * (x mod int m) mod int m"
    using assms(2) by (simp add: zmod_int)
  also have "\<dots> = int a * x mod int m"
    by (simp add: mod_mult_right_eq)
  also have "\<dots> = (int a * x + int m * y) mod int m"
    by simp
  also have "\<dots> = 1" using bez assms(2) by simp
  finally have "a * ?x mod m = 1" by (metis of_nat_eq_1_iff)
  then show ?thesis using inv lt by blast
qed

lemma mont_R_inverse:
  assumes "odd (bn_value (mont_N mont))" "1 < bn_value (mont_N mont)"
  shows "\<exists>Ri. mod_inverse (mont_R mont) (bn_value (mont_N mont)) = Some Ri
           \<and> mont_R mont * Ri mod bn_value (mont_N mont) = 1"
proof -
  have "coprime (2 :: nat) (bn_value (mont_N mont))"
    using assms(1) by simp
  then have "coprime (mont_R mont) (bn_value (mont_N mont))"
    by (simp add: mont_R_def)
  from mod_inverse_correct [OF this assms(2)] show ?thesis by blast
qed

lemma mod_mul_mont_encoded:
  assumes N: "odd (bn_value (mont_N mont))" "1 < bn_value (mont_N mont)"
    and b: "bn_value b = v * mont_R mont mod bn_value (mont_N mont)"
  shows "GFp_BN_mod_mul_mont a b mont = Some (bn_of_nat (bn_value a * v mod bn_value (mont_N mont)))"
proof -
  let ?N = "bn_value (mont_N mont)" and ?R = "mont_R mont"
  obtain Ri where Ri: "mod_inverse ?R ?N = Some Ri" "?R * Ri mod ?N = 1"
    using mont_R_inverse [OF N] by blast
  have "bn_value a * bn_value b * Ri mod ?N = bn_value a * v * (?R * Ri) mod ?N"
    unfolding b by (metis (no_types, lifting) mod_mult_left_eq mod_mult_right_eq mult.assoc)
  also have "\<dots> = bn_value a * v * (?R * Ri mod ?N) mod ?N"
    by (simp only: mod_mult_right_eq)
  also have "\<dots> = bn_value a * v mod ?N"
    by (simp add: Ri(2))
  finally show ?thesis by (simp add: GFp_BN_mod_mul_mont_def Ri(1))
qed

section \<open>The key validator\<close>

lemma ucmp_pos_of_bits:
  "GFp_BN_num_bits e < GFp_BN_num_bits n \<Longrightarrow> GFp_BN_ucmp n e > 0"
  using num_bits_less [of "bn_value e" "bn_value n"]
  by (simp add: GFp_BN_num_bits_def GFp_BN_ucmp_def)

lemma num_bits_34: "num_bits_nat 8590000127 = 34"
  by (simp add: num_bits_nat.simps)

lemma num_bits_3: "num_bits_nat 7 = 3"
  by (simp add: num_bits_nat.simps)

text \<open>
  C4: the validator succeeds exactly when the modulus has at least \<open>min_bits\<close> bits and at most
  \<open>min(max_bits, 16384)\<close> bits, the exponent has between 2 and 33 bits and is odd, and the
  modulus has more than 33 bits; otherwise it reports the reason of the first check that fails,
  in the order: key size too small, modulus too large, bad exponent (three checks), key size too
  small.
\<close>

theorem check_modulus_and_exponent_checks:
  "(GFp_rsa_check_modulus_and_exponent n e min_bits max_bits = Inr () \<longleftrightarrow>
      min_bits \<le> GFp_BN_num_bits n \<and> GFp_BN_num_bits n \<le> min max_bits 16384
      \<and> 2 \<le> GFp_BN_num_bits e \<and> GFp_BN_num_bits e \<le> 33 \<and> odd (bn_value e)
      \<and> 33 < GFp_BN_num_bits n)
   \<and> GFp_rsa_check_modulus_and_exponent n e min_bits max_bits =
      (if GFp_BN_num_bits n < min_bits then Inl RSA_R_KEY_SIZE_TOO_SMALL
       else if min max_bits 16384 < GFp_BN_num_bits n then Inl RSA_R_MODULUS_TOO_LARGE
       else if GFp_BN_num_bits e < 2 then Inl RSA_R_BAD_E_VALUE
       else if 33 < GFp_BN_num_bits e then Inl RSA_R_BAD_E_VALUE
       else if even (bn_value e) then Inl RSA_R_BAD_E_VALUE
       else if GFp_BN_num_bits n \<le> 33 then Inl RSA_R_KEY_SIZE_TOO_SMALL
       else Inr ())"
proof -
  have chain: "GFp_rsa_check_modulus_and_exponent n e min_bits max_bits =
      (if GFp_BN_num_bits n < min_bits then Inl RSA_R_KEY_SIZE_TOO_SMALL
       else if min max_bits 16384 < GFp_BN_num_bits n then Inl RSA_R_MODULUS_TOO_LARGE
       else if GFp_BN_num_bits e < 2 then Inl RSA_R_BAD_E_VALUE
       else if 33 < GFp_BN_num_bits e then Inl RSA_R_BAD_E_VALUE
       else if even (bn_value e) then Inl RSA_R_BAD_E_VALUE
       else if GFp_BN_num_bits n \<le> 33 then Inl RSA_R_KEY_SIZE_TOO_SMALL
       else Inr ())"
  proof (cases "GFp_BN_num_bits e \<le> 33 \<and> 33 < GFp_BN_num_bits n")
    case True
    then have "GFp_BN_ucmp n e > 0" by (intro ucmp_pos_of_bits) simp
    then show ?thesis
      by (auto simp: GFp_rsa_check_modulus_and_exponent_def Let_def kMaxExponentBits_def
          GFp_BN_is_odd_def)
  next
    case False
    then show ?thesis
      by (auto simp: GFp_rsa_check_modulus_and_exponent_def Let_def kMaxExponentBits_def
          GFp_BN_is_odd_def)
  qed
  show ?thesis
    by (rule conjI [OF _ chain], unfold chain) (auto split: if_splits)
qed

theorem check_modulus_and_exponent_checks_witness:
  "GFp_rsa_check_modulus_and_exponent (bn_of_nat 8590000127) (bn_of_nat 7) 34 2048 = Inr ()
   \<and> GFp_rsa_check_modulus_and_exponent (bn_of_nat 8590000127) (bn_of_nat 6) 34 2048
       = Inl RSA_R_BAD_E_VALUE
   \<and> GFp_rsa_check_modulus_and_exponent (bn_of_nat 7) (bn_of_nat 7) 2 2048
       = Inl RSA_R_KEY_SIZE_TOO_SMALL"
proof -
  have b6: "num_bits_nat 6 = 3" by (simp add: num_bits_nat.simps)
  show ?thesis
    using check_modulus_and_exponent_checks [of "bn_of_nat 8590000127" "bn_of_nat 7" 34 2048]
      check_modulus_and_exponent_checks [of "bn_of_nat 8590000127" "bn_of_nat 6" 34 2048]
      check_modulus_and_exponent_checks [of "bn_of_nat 7" "bn_of_nat 7" 2 2048]
    by (simp add: GFp_BN_num_bits_def num_bits_34 num_bits_3 b6)
qed

text \<open>
  C9: the comparison asserted at the end of the validator never fails, and whenever the
  validator succeeds the modulus is greater than the exponent.
\<close>

theorem check_modulus_and_exponent_assertion_holds:
  "GFp_rsa_check_modulus_and_exponent n e min_bits max_bits \<noteq> Inl ASSERTION_FAILURE
   \<and> (GFp_rsa_check_modulus_and_exponent n e min_bits max_bits = Inr ()
        \<longrightarrow> GFp_BN_ucmp n e > 0 \<and> bn_value e < bn_value n)"
proof (cases "GFp_BN_num_bits e \<le> 33 \<and> 33 < GFp_BN_num_bits n")
  case True
  then have lt: "GFp_BN_num_bits e < GFp_BN_num_bits n" by simp
  then have "GFp_BN_ucmp n e > 0" by (rule ucmp_pos_of_bits)
  moreover have "bn_value e < bn_value n"
    using lt num_bits_less by (simp add: GFp_BN_num_bits_def)
  ultimately show ?thesis
    by (simp add: GFp_rsa_check_modulus_and_exponent_def Let_def kMaxExponentBits_def)
next
  case False
  then show ?thesis
    by (auto simp: GFp_rsa_check_modulus_and_exponent_def Let_def kMaxExponentBits_def)
qed

theorem check_modulus_and_exponent_assertion_holds_witness:
  "GFp_rsa_check_modulus_and_exponent (bn_of_nat 8590000127) (bn_of_nat 7) 34 2048 = Inr ()
   \<and> GFp_BN_ucmp (bn_of_nat 8590000127) (bn_of_nat 7) > 0
   \<and> bn_value (bn_of_nat 7) < bn_value (bn_of_nat 8590000127)"
proof -
  have ok: "GFp_rsa_check_modulus_and_exponent (bn_of_nat 8590000127) (bn_of_nat 7) 34 2048 = Inr ()"
    by (simp add: GFp_rsa_check_modulus_and_exponent_def Let_def kMaxExponentBits_def
        GFp_BN_num_bits_def GFp_BN_is_odd_def GFp_BN_ucmp_def num_bits_34 num_bits_3)
  from check_modulus_and_exponent_assertion_holds
    [of "bn_of_nat 8590000127" "bn_of_nat 7" 34 2048, THEN conjunct2, rule_format, OF ok]
  show ?thesis by (rule conjI [OF ok])
qed

section \<open>The public transform\<close>

lemma mod_pow_less: "0 < m \<Longrightarrow> mod_pow a k m < m"
  by (simp add: mod_pow_def)

lemma public_decrypt_size_checks:
  "length out \<noteq> GFp_BN_num_bytes (bn_of_nat (be_value public_key_n))
     \<Longrightarrow> GFp_rsa_public_decrypt out public_key_n public_key_e inp min_bits max_bits
           = (Inl RSA_R_OUTPUT_BUFFER_TOO_SMALL, out)"
  "length out = GFp_BN_num_bytes (bn_of_nat (be_value public_key_n))
     \<Longrightarrow> length inp \<noteq> GFp_BN_num_bytes (bn_of_nat (be_value public_key_n))
     \<Longrightarrow> GFp_rsa_public_decrypt out public_key_n public_key_e inp min_bits max_bits
           = (Inl RSA_R_DATA_LEN_NOT_EQUAL_TO_MOD_LEN, out)"
  by (simp_all add: GFp_rsa_public_decrypt_def GFp_BN_bin2bn_def Let_def)

text \<open>
  The public transform once the two length checks have passed: the validator, the range check
  on the input, the exponentiation and the write.
\<close>

lemma public_decrypt_sized:
  assumes "length out = GFp_BN_num_bytes (bn_of_nat (be_value public_key_n))"
    and "length inp = GFp_BN_num_bytes (bn_of_nat (be_value public_key_n))"
  shows "GFp_rsa_public_decrypt out public_key_n public_key_e inp min_bits max_bits =
     (case GFp_rsa_check_modulus_and_exponent (bn_of_nat (be_value public_key_n))
             (bn_of_nat (be_value public_key_e)) min_bits max_bits of
        Inl reason \<Rightarrow> (Inl reason, out)
      | Inr _ \<Rightarrow>
          if be_value public_key_n \<le> be_value inp
          then (Inl RSA_R_DATA_TOO_LARGE_FOR_MODULUS, out)
          else if even (be_value public_key_n) then (Inl ERR_R_INTERNAL_ERROR, out)
          else (Inr (), be_bytes (length out)
                  (be_value inp ^ be_value public_key_e mod be_value public_key_n)))"
proof (cases "GFp_rsa_check_modulus_and_exponent (bn_of_nat (be_value public_key_n))
             (bn_of_nat (be_value public_key_e)) min_bits max_bits")
  case (Inl reason)
  then show ?thesis
    using assms by (simp add: GFp_rsa_public_decrypt_def GFp_BN_bin2bn_def Let_def)
next
  case (Inr u)
  let ?n = "be_value public_key_n"
  have fit: "x < ?n \<Longrightarrow> x < 256 ^ length out" for x
    using assms(1) num_bytes_bound [of ?n]
    by (simp add: GFp_BN_num_bytes_def GFp_BN_num_bits_def)
  show ?thesis
  proof (cases "?n \<le> be_value inp")
    case True
    then show ?thesis
      using assms Inr
      by (simp add: GFp_rsa_public_decrypt_def GFp_BN_bin2bn_def Let_def GFp_BN_ucmp_def)
  next
    case False
    then have pos: "0 < ?n" by simp
    have "mod_pow (be_value inp) (be_value public_key_e) ?n < 256 ^ length out"
      using pos by (intro fit mod_pow_less)
    then show ?thesis
      using assms Inr False
      by (simp add: GFp_rsa_public_decrypt_def GFp_BN_bin2bn_def Let_def GFp_BN_ucmp_def
          GFp_BN_mod_exp_mont_vartime_def GFp_BN_bn2bin_padded_def mod_pow_def)
  qed
qed

text \<open>
  C5: whenever the public transform succeeds, the output buffer holds the big-endian encoding
  of \<open>f^e mod n\<close>, padded with zeros on the left to the byte length of the modulus, where \<open>f\<close> is
  the value of the input buffer, and \<open>f < n\<close>. The encoding is stated twice: as the bytes that
  \<open>be_bytes\<close> produces, and as the only buffer of that length with that value.
\<close>

theorem public_decrypt_output:
  assumes "GFp_rsa_public_decrypt out public_key_n public_key_e inp min_bits max_bits = (Inr (), out')"
  shows "be_value inp < be_value public_key_n
     \<and> out' = be_bytes (GFp_BN_num_bytes (bn_of_nat (be_value public_key_n)))
                (be_value inp ^ be_value public_key_e mod be_value public_key_n)
     \<and> length out' = GFp_BN_num_bytes (bn_of_nat (be_value public_key_n))
     \<and> be_value out' = be_value inp ^ be_value public_key_e mod be_value public_key_n"
proof -
  let ?n = "be_value public_key_n"
  let ?sz = "GFp_BN_num_bytes (bn_of_nat ?n)"
  let ?v = "be_value inp ^ be_value public_key_e mod ?n"
  let ?chk = "GFp_rsa_check_modulus_and_exponent (bn_of_nat ?n)
             (bn_of_nat (be_value public_key_e)) min_bits max_bits"
  have sz1: "length out = ?sz"
  proof (rule ccontr)
    assume "length out \<noteq> ?sz"
    from public_decrypt_size_checks(1) [OF this, of public_key_e inp min_bits max_bits] assms
    show False by simp
  qed
  have sz2: "length inp = ?sz"
  proof (rule ccontr)
    assume "length inp \<noteq> ?sz"
    from public_decrypt_size_checks(2) [OF sz1 this, of public_key_e min_bits max_bits] assms
    show False by simp
  qed
  note eq = public_decrypt_sized [OF sz1 sz2, of public_key_e min_bits max_bits]
  have chk: "?chk = Inr ()"
  proof (cases ?chk)
    case (Inl reason)
    then show ?thesis using eq assms by simp
  next
    case (Inr u)
    then show ?thesis by simp
  qed
  have eq2: "(Inr (), out') =
      (if ?n \<le> be_value inp then (Inl RSA_R_DATA_TOO_LARGE_FOR_MODULUS, out)
       else if even ?n then (Inl ERR_R_INTERNAL_ERROR, out)
       else (Inr (), be_bytes (length out) ?v))"
    using eq assms by (simp only: chk sum.case)
  have lt: "be_value inp < ?n"
    using eq2 by (cases "?n \<le> be_value inp") simp_all
  have od: "odd ?n"
    using eq2 lt by (cases "even ?n") simp_all
  have out': "out' = be_bytes ?sz ?v"
    using eq2 lt od sz1 by simp
  have "?v < ?n" using lt by simp
  then have "?v < 256 ^ ?sz"
    using num_bytes_bound [of ?n]
    by (simp add: GFp_BN_num_bytes_def GFp_BN_num_bits_def)
  then have "be_value out' = ?v"
    by (simp add: out' be_value_be_bytes)
  then show ?thesis using lt out' by simp
qed

lemma be_value_n_bytes: "be_value [2, 0, 0, 255, 255] = 8590000127"
  by (simp add: be_value_def)

lemma be_value_sig_bytes: "be_value [1, 127, 148, 40, 146] = 6435383442"
  by (simp add: be_value_def)

lemma be_value_7: "be_value [7] = 7"
  by (simp add: be_value_def)

lemma be_value_42: "be_value [0, 0, 0, 0, 42] = 42"
  by (simp add: be_value_def)

lemma be_bytes_unfold:
  "be_bytes len x = (if len = 0 then [] else word_of_nat (x div 256 ^ (len - 1) mod 256) # be_bytes (len - 1) x)"
  by (cases len) simp_all

lemma example_sig_power: "mod_pow 6435383442 7 8590000127 = 42"
  by (simp add: mod_pow_code)

lemma example_public_decrypt:
  "GFp_rsa_public_decrypt [0, 0, 0, 0, 0] [2, 0, 0, 255, 255] [7] [1, 127, 148, 40, 146] 34 2048
     = (Inr (), [0, 0, 0, 0, 42])"
proof -
  have chk: "GFp_rsa_check_modulus_and_exponent (bn_of_nat 8590000127) (bn_of_nat 7) 34 2048 = Inr ()"
    by (simp add: GFp_rsa_check_modulus_and_exponent_def Let_def kMaxExponentBits_def
        GFp_BN_num_bits_def GFp_BN_is_odd_def GFp_BN_ucmp_def num_bits_34 num_bits_3)
  have bytes: "be_bytes 5 42 = [0, 0, 0, 0, 42]"
    by (simp add: be_bytes_unfold)
  have pow: "(6435383442::nat) ^ 7 mod 8590000127 = 42"
    using example_sig_power by (simp only: mod_pow_def)
  have sz: "GFp_BN_num_bytes (bn_of_nat 8590000127) = 5"
    by (simp add: GFp_BN_num_bytes_def GFp_BN_num_bits_def num_bits_34)
  show ?thesis
    using public_decrypt_sized [of "[0, 0, 0, 0, 0]" "[2, 0, 0, 255, 255]" "[1, 127, 148, 40, 146]" "[7]" 34 2048]
    by (simp only: be_value_n_bytes be_value_sig_bytes be_value_7 sz chk pow bytes)
      simp
qed

theorem public_decrypt_output_witness:
  "GFp_rsa_public_decrypt [0, 0, 0, 0, 0] [2, 0, 0, 255, 255] [7] [1, 127, 148, 40, 146] 34 2048
     = (Inr (), [0, 0, 0, 0, 42])
   \<and> be_value [1, 127, 148, 40, 146] < be_value [2, 0, 0, 255, 255]
   \<and> [0, 0, 0, 0, 42] = be_bytes (GFp_BN_num_bytes (bn_of_nat (be_value [2, 0, 0, 255, 255])))
        (be_value [1, 127, 148, 40, 146] ^ be_value [7] mod be_value [2, 0, 0, 255, 255])
   \<and> length [0, 0, 0, 0, 42 :: u8] = GFp_BN_num_bytes (bn_of_nat (be_value [2, 0, 0, 255, 255]))
   \<and> be_value [0, 0, 0, 0, 42]
        = be_value [1, 127, 148, 40, 146] ^ be_value [7] mod be_value [2, 0, 0, 255, 255]"
  by (rule conjI [OF example_public_decrypt public_decrypt_output [OF example_public_decrypt]])

section \<open>The private transform: the stages\<close>

lemma rsa_cancel:
  assumes "is_prime p" "is_prime q" "q < p"
    and "e * d mod (p - 1) = 1" "e * d mod (q - 1) = 1"
  shows "a ^ (e * d) mod (p * q) = a mod (p * q)"
proof (rule crt_unique)
  show "coprime p q" using assms(1-3) by (rule primes_coprime)
  show "a ^ (e * d) mod p = a mod p" using assms(1,4) by (rule rsa_exponent_cancel)
  show "a ^ (e * d) mod q = a mod q" using assms(2,5) by (rule rsa_exponent_cancel)
qed

lemma garner_crt:
  fixes p q iqmp mp mq x :: nat
  assumes cop: "coprime p q" and inv: "q * iqmp mod p = 1"
    and mp: "mp < p" and mq: "mq < q" and qp: "q < p"
    and xp: "x mod p = mp" and xq: "x mod q = mq"
  shows "mq + q * ((if mq \<le> mp then mp - mq else mp + p - mq) * iqmp mod p) = x mod (p * q)"
proof -
  let ?t = "if mq \<le> mp then mp - mq else mp + p - mq"
  let ?h = "?t * iqmp mod p"
  let ?r = "mq + q * ?h"
  have p0: "0 < p" using mp by simp
  have "?h < p" using p0 by simp
  then have "?h + 1 \<le> p" by simp
  then have "q * (?h + 1) \<le> q * p" by (rule mult_le_mono2)
  then have small: "?r < p * q" using mq by (simp add: algebra_simps)
  have tsum: "(?t + mq) mod p = mp"
    using mp mq qp by (auto simp: mod_add_self2 add.commute [of mp p])
  have "?r mod p = (mq + q * (?t * iqmp)) mod p"
    by (intro mod_add_cong refl mod_mult_right_eq)
  also have "q * (?t * iqmp) = ?t * (q * iqmp)"
    by (simp only: ac_simps)
  also have "(mq + ?t * (q * iqmp)) mod p = (mq + ?t * (q * iqmp mod p)) mod p"
    by (intro mod_add_cong refl mod_mult_right_eq [symmetric])
  also have "\<dots> = (?t + mq) mod p"
    by (simp only: inv mult_1_right add.commute)
  finally have rp: "?r mod p = x mod p" using tsum xp by simp
  have rq: "?r mod q = x mod q" using mq xq by simp
  have "?r mod (p * q) = x mod (p * q)"
    using cop rp rq by (rule crt_unique)
  then show ?thesis using small by simp
qed

lemma garner_int_form:
  fixes p iqmp mp mq :: nat
  assumes "mp < p" "mq < p"
  shows "int ((if mq \<le> mp then mp - mq else mp + p - mq) * iqmp mod p)
          = (int mp - int mq) * int iqmp mod int p"
proof -
  let ?t = "if mq \<le> mp then mp - mq else mp + p - mq"
  have "int ?t = int mp - int mq \<or> int ?t = int mp - int mq + int p"
    using assms by (auto simp: of_nat_diff)
  then have t: "int ?t mod int p = (int mp - int mq) mod int p"
    by (metis mod_add_self2)
  have "int (?t * iqmp mod p) = (int ?t * int iqmp) mod int p"
    by (simp only: zmod_int of_nat_mult)
  also have "\<dots> = (int ?t mod int p * int iqmp) mod int p"
    by (simp only: mod_mult_left_eq)
  also have "\<dots> = ((int mp - int mq) mod int p * int iqmp) mod int p"
    by (simp only: t)
  also have "\<dots> = (int mp - int mq) * int iqmp mod int p"
    by (simp only: mod_mult_left_eq)
  finally show ?thesis .
qed

lemma convert_value:
  assumes "coprime r (bn_value (mont_N (mont_n rsa)))" "1 < bn_value (mont_N (mont_n rsa))"
  shows "\<exists>ri. ri < bn_value (mont_N (mont_n rsa))
      \<and> r * ri mod bn_value (mont_N (mont_n rsa)) = 1
      \<and> GFp_BN_BLINDING_convert base blinding rsa (Some r) =
          Some (bn_of_nat (bn_value base
                  * mod_pow r (bn_value (rsa_e rsa)) (bn_value (mont_N (mont_n rsa)))
                  mod bn_value (mont_N (mont_n rsa))),
                \<lparr>blinding_A = bn_of_nat (mod_pow r (bn_value (rsa_e rsa)) (bn_value (mont_N (mont_n rsa)))),
                 blinding_Ai = bn_of_nat ri\<rparr>)"
proof -
  obtain ri where ri: "mod_inverse r (bn_value (mont_N (mont_n rsa))) = Some ri"
      "ri < bn_value (mont_N (mont_n rsa))" "r * ri mod bn_value (mont_N (mont_n rsa)) = 1"
    using mod_inverse_correct [OF assms] by blast
  then show ?thesis
    by (intro exI [of _ ri]) (simp add: GFp_BN_BLINDING_convert_def Let_def)
qed

lemma private_transform_mp_value:
  assumes "odd (bn_value (mont_N (mont_p rsa)))"
    and "bn_value base < bn_value (mont_N (mont_p rsa)) * bn_value (mont_N (mont_p rsa))"
  shows "private_transform_mp rsa base =
     Some (bn_of_nat (mod_pow (bn_value base mod bn_value (mont_N (mont_p rsa)))
                        (bn_value (dmp1 rsa)) (bn_value (mont_N (mont_p rsa)))))"
  using assms
  by (simp add: private_transform_mp_def GFp_BN_reduce_mont_def GFp_BN_mod_exp_mont_consttime_def)

lemma private_transform_mq_value:
  assumes qq: "bn_value (mont_N (mont_qq rsa)) = q * q" and q: "bn_value (mont_N (mont_q rsa)) = q"
    and od: "odd q" and range: "bn_value base < (q * q) * (q * q)"
  shows "private_transform_mq rsa base =
     Some (bn_of_nat (mod_pow (bn_value base mod q) (bn_value (dmq1 rsa)) q))"
proof -
  have q0: "0 < q" using od by (cases q) simp_all
  have step1: "GFp_BN_reduce_mont base (mont_qq rsa) = Some (bn_of_nat (bn_value base mod (q * q)))"
    using od range by (simp add: GFp_BN_reduce_mont_def qq)
  have "bn_value base mod (q * q) < q * q" using q0 by simp
  then have step2: "GFp_BN_reduce_mont (bn_of_nat (bn_value base mod (q * q))) (mont_q rsa)
      = Some (bn_of_nat (bn_value base mod (q * q) mod q))"
    using od by (simp add: GFp_BN_reduce_mont_def q)
  have "bn_value base mod (q * q) mod q = bn_value base mod q"
    by (simp add: mod_mod_cancel)
  then show ?thesis
    using od by (simp add: private_transform_mq_def step1 step2 GFp_BN_mod_exp_mont_consttime_def q)
qed

lemma private_transform_garner_value:
  assumes p: "bn_value (mont_N (mont_p rsa)) = p" and n: "bn_value (mont_N (mont_n rsa)) = p * q"
    and odp: "odd p" and odq: "odd q" and q1: "1 < q" and qp: "q < p"
    and iq: "bn_value (iqmp_mont rsa) = iqmp * mont_R (mont_p rsa) mod p"
    and qm: "bn_value (qmn_mont rsa) = q * mont_R (mont_n rsa) mod (p * q)"
    and mp: "bn_value mp < p" and mq: "bn_value mq < q"
  shows "private_transform_garner rsa mp mq =
     Some (bn_of_nat (bn_value mq + q *
        ((if bn_value mq \<le> bn_value mp then bn_value mp - bn_value mq
          else bn_value mp + p - bn_value mq) * iqmp mod p)))"
proof -
  let ?t = "if bn_value mq \<le> bn_value mp then bn_value mp - bn_value mq
            else bn_value mp + p - bn_value mq"
  let ?h = "?t * iqmp mod p"
  have p1: "1 < p" using q1 qp by simp
  have "2 * 2 \<le> p * q" using p1 q1 by (intro mult_le_mono) simp_all
  then have n1: "1 < p * q" by simp
  have odn: "odd (p * q)" using odp odq by simp
  have sub: "GFp_BN_mod_sub_quick mp mq (mont_N (mont_p rsa)) = Some (bn_of_nat ?t)"
    using mp mq qp by (auto simp: GFp_BN_mod_sub_quick_def p)
  have odp': "odd (bn_value (mont_N (mont_p rsa)))"
    unfolding p by (rule odp)
  have p1': "1 < bn_value (mont_N (mont_p rsa))"
    unfolding p by (rule p1)
  have iq': "bn_value (iqmp_mont rsa) = iqmp * mont_R (mont_p rsa) mod bn_value (mont_N (mont_p rsa))"
    unfolding p by (rule iq)
  have "GFp_BN_mod_mul_mont (bn_of_nat ?t) (iqmp_mont rsa) (mont_p rsa)
      = Some (bn_of_nat (bn_value (bn_of_nat ?t) * iqmp mod bn_value (mont_N (mont_p rsa))))"
    by (rule mod_mul_mont_encoded [OF odp' p1' iq'])
  then have mul1: "GFp_BN_mod_mul_mont (bn_of_nat ?t) (iqmp_mont rsa) (mont_p rsa) = Some (bn_of_nat ?h)"
    by (simp only: p bn_value_of_nat)
  have hp: "?h < p" using p1 by simp
  have q0: "0 < q" using q1 by simp
  have hq: "?h * q < p * q" using hp q0 by (rule mult_less_mono1)
  have odn': "odd (bn_value (mont_N (mont_n rsa)))"
    unfolding n by (rule odn)
  have n1': "1 < bn_value (mont_N (mont_n rsa))"
    unfolding n by (rule n1)
  have qm': "bn_value (qmn_mont rsa) = q * mont_R (mont_n rsa) mod bn_value (mont_N (mont_n rsa))"
    unfolding n by (rule qm)
  have "GFp_BN_mod_mul_mont (bn_of_nat ?h) (qmn_mont rsa) (mont_n rsa)
      = Some (bn_of_nat (bn_value (bn_of_nat ?h) * q mod bn_value (mont_N (mont_n rsa))))"
    by (rule mod_mul_mont_encoded [OF odn' n1' qm'])
  also have "bn_value (bn_of_nat ?h) * q mod bn_value (mont_N (mont_n rsa)) = ?h * q"
    using hq by (simp only: n bn_value_of_nat mod_less)
  finally have mul2: "GFp_BN_mod_mul_mont (bn_of_nat ?h) (qmn_mont rsa) (mont_n rsa)
      = Some (bn_of_nat (?h * q))" .
  have "private_transform_garner rsa mp mq = Some (bn_of_nat (?h * q + bn_value mq))"
    by (simp only: private_transform_garner_def Let_def sub mul1 mul2 option.case GFp_BN_add_def
        bn_value_of_nat)
  also have "?h * q + bn_value mq = bn_value mq + q * ?h"
    by (simp only: ac_simps)
  finally show ?thesis .
qed

lemma bignum_differs:
  fixes a b :: BIGNUM
  shows "a \<noteq> b \<longleftrightarrow> bn_top a \<noteq> bn_top b \<or> GFp_memcmp (bn_d a) (bn_d b) (bn_top a) \<noteq> 0"
proof (cases "length (bn_d a) = length (bn_d b)")
  case True
  have "a = b \<longleftrightarrow> bn_d a = bn_d b"
    by (auto intro: BIGNUM.equality)
  then show ?thesis using True by (simp add: bn_top_def GFp_memcmp_def)
next
  case False
  then have "a \<noteq> b" by auto
  then show ?thesis using False by (simp add: bn_top_def)
qed

lemma private_transform_release_value:
  assumes od: "odd (bn_value (mont_N (mont_n rsa)))"
    and ok: "base = bn_of_nat (bn_value r ^ bn_value (rsa_e rsa) mod bn_value (mont_N (mont_n rsa)))"
    and fit: "bn_value r * bn_value (blinding_Ai blinding) mod bn_value (mont_N (mont_n rsa))
                < 256 ^ length inout"
  shows "private_transform_release rsa blinding base r inout =
     (Inr (), be_bytes (length inout)
        (bn_value r * bn_value (blinding_Ai blinding) mod bn_value (mont_N (mont_n rsa))))"
proof -
  have vr: "GFp_BN_mod_exp_mont_vartime r (rsa_e rsa) (mont_N (mont_n rsa)) (Some (mont_n rsa)) = Some base"
    using od by (simp add: GFp_BN_mod_exp_mont_vartime_def ok mod_pow_def)
  have same: "\<not> (bn_top base \<noteq> bn_top base \<or> GFp_memcmp (bn_d base) (bn_d base) (bn_top base) \<noteq> 0)"
    using bignum_differs [of base base] by simp
  show ?thesis
    using fit same
    by (simp add: private_transform_release_def vr GFp_BN_BLINDING_invert_def GFp_BN_bn2bin_padded_def)
qed

section \<open>The private transform on a consistent key\<close>

lemma private_key_facts:
  assumes "private_key_ok rsa p q d iqmp"
  shows "odd p" "odd q" "1 < q" "q < p" "coprime p q" "odd (p * q)" "1 < p * q"
proof -
  have pr: "is_prime p" "is_prime q" and qp: "q < p"
    and eq: "bn_value (rsa_e rsa) * d mod (q - 1) = 1"
    using assms by (simp_all add: private_key_ok_def)
  show q1: "1 < q" using pr(2) by (simp add: is_prime_def)
  have "q \<noteq> 2" using eq by auto
  then show oq: "odd q" using pr(2) by (intro is_prime_odd)
  have "p \<noteq> 2" using q1 qp by simp
  then show op: "odd p" using pr(1) by (intro is_prime_odd)
  show "q < p" by (rule qp)
  show "coprime p q" using pr qp by (rule primes_coprime)
  show "odd (p * q)" using op oq by simp
  have "2 * 2 \<le> p * q" using q1 qp by (intro mult_le_mono) simp_all
  then show "1 < p * q" by simp
qed

lemma crt_residue:
  assumes "is_prime p" "e * d mod (p - 1) = 1"
  shows "(b mod p) ^ (d mod (p - 1)) mod p = b ^ d mod p"
proof -
  have "0 < d mod (p - 1)" using assms(2) by (rule rsa_exponent_pos)
  then have "(b mod p) ^ (d mod (p - 1)) mod p = (b mod p) ^ d mod p"
    using assms(1) by (intro pow_mod_prime_reduce)
  then show ?thesis by (simp only: power_mod)
qed

lemma garner_stage_correct:
  assumes key: "private_key_ok rsa p q d iqmp"
    and mp: "bn_value mp = (b mod p) ^ bn_value (dmp1 rsa) mod p"
    and mq: "bn_value mq = (b mod q) ^ bn_value (dmq1 rsa) mod q"
  shows "private_transform_garner rsa mp mq = Some (bn_of_nat (b ^ d mod (p * q)))"
    and "int (b ^ d mod (p * q)) = int (bn_value mq)
           + int q * ((int (bn_value mp) - int (bn_value mq)) * int iqmp mod int p)"
proof -
  note facts = private_key_facts [OF key]
  have k: "is_prime p" "is_prime q"
    "bn_value (mont_N (mont_n rsa)) = p * q" "bn_value (mont_N (mont_p rsa)) = p"
    "bn_value (rsa_e rsa) * d mod (p - 1) = 1" "bn_value (rsa_e rsa) * d mod (q - 1) = 1"
    "bn_value (dmp1 rsa) = d mod (p - 1)" "bn_value (dmq1 rsa) = d mod (q - 1)"
    "q * iqmp mod p = 1"
    "bn_value (iqmp_mont rsa) = iqmp * mont_R (mont_p rsa) mod p"
    "bn_value (qmn_mont rsa) = q * mont_R (mont_n rsa) mod (p * q)"
    using key by (simp_all add: private_key_ok_def)
  have vp: "bn_value mp = b ^ d mod p"
    unfolding mp k(7) using k(1,5) by (rule crt_residue)
  have vq: "bn_value mq = b ^ d mod q"
    unfolding mq k(8) using k(2,6) by (rule crt_residue)
  have lp: "bn_value mp < p" using facts(3,4) by (simp add: vp)
  have lq: "bn_value mq < q" using facts(3) by (simp add: vq)
  let ?t = "if bn_value mq \<le> bn_value mp then bn_value mp - bn_value mq
            else bn_value mp + p - bn_value mq"
  have g: "bn_value mq + q * (?t * iqmp mod p) = b ^ d mod (p * q)"
    using facts(5) k(9) lp lq facts(4) vp [symmetric] vq [symmetric] by (rule garner_crt)
  have "private_transform_garner rsa mp mq = Some (bn_of_nat (bn_value mq + q * (?t * iqmp mod p)))"
    using k(4) k(3) facts(1) facts(2) facts(3) facts(4) k(10) k(11) lp lq
    by (rule private_transform_garner_value)
  then show "private_transform_garner rsa mp mq = Some (bn_of_nat (b ^ d mod (p * q)))"
    by (simp only: g)
  have lq': "bn_value mq < p" using lq facts(4) by simp
  have "int (b ^ d mod (p * q)) = int (bn_value mq) + int q * int (?t * iqmp mod p)"
    by (simp only: g [symmetric] of_nat_add of_nat_mult)
  then show "int (b ^ d mod (p * q)) = int (bn_value mq)
           + int q * ((int (bn_value mp) - int (bn_value mq)) * int iqmp mod int p)"
    by (simp only: garner_int_form [OF lp lq'])
qed

lemma private_transform_crt:
  assumes key: "private_key_ok rsa p q d iqmp"
    and bal: "p < q * q * q"
    and b: "bn_value base < p * q"
  shows "\<exists>mp mq. private_transform_mp rsa base = Some mp
      \<and> private_transform_mq rsa base = Some mq
      \<and> private_transform_garner rsa mp mq = Some (bn_of_nat (bn_value base ^ d mod (p * q)))"
proof -
  note facts = private_key_facts [OF key]
  have k: "bn_value (mont_N (mont_p rsa)) = p" "bn_value (mont_N (mont_q rsa)) = q"
    "bn_value (mont_N (mont_qq rsa)) = q * q"
    using key by (simp_all add: private_key_ok_def)
  let ?mp = "bn_of_nat (mod_pow (bn_value base mod p) (bn_value (dmp1 rsa)) p)"
  let ?mq = "bn_of_nat (mod_pow (bn_value base mod q) (bn_value (dmq1 rsa)) q)"
  have "p * q < p * p" using facts(3,4) by simp
  then have rp: "bn_value base < bn_value (mont_N (mont_p rsa)) * bn_value (mont_N (mont_p rsa))"
    using b by (simp only: k(1))
  have odp: "odd (bn_value (mont_N (mont_p rsa)))"
    unfolding k(1) by (rule facts(1))
  have mp: "private_transform_mp rsa base = Some ?mp"
    using private_transform_mp_value [OF odp rp] by (simp only: k(1))
  have q0: "0 < q" using facts(3) by simp
  have "p * q < (q * q * q) * q" using bal q0 by (rule mult_less_mono1)
  also have "\<dots> = (q * q) * (q * q)" by (simp only: mult.assoc)
  finally have rq: "bn_value base < (q * q) * (q * q)"
    using b by (rule less_trans [rotated])
  have mq: "private_transform_mq rsa base = Some ?mq"
    using k(3) k(2) facts(2) rq by (rule private_transform_mq_value)
  have "private_transform_garner rsa ?mp ?mq = Some (bn_of_nat (bn_value base ^ d mod (p * q)))"
    by (rule garner_stage_correct(1) [OF key]) (simp_all only: bn_value_of_nat mod_pow_def)
  then show ?thesis using mp mq by blast
qed

lemma unblind_value:
  fixes m r ri e d n :: nat
  assumes re: "r ^ (e * d) mod n = r mod n" and inv: "r * ri mod n = 1"
  shows "(m * (r ^ e mod n) mod n) ^ d mod n * ri mod n = m ^ d mod n"
proof -
  have "(m * (r ^ e mod n) mod n) ^ d mod n = (m * r ^ e) ^ d mod n"
    by (simp only: power_mod mod_mult_right_eq)
  also have "(m * r ^ e) ^ d = m ^ d * r ^ (e * d)"
    by (simp only: power_mult_distrib power_mult)
  also have "(m ^ d * r ^ (e * d)) mod n = (m ^ d * (r ^ (e * d) mod n)) mod n"
    by (simp only: mod_mult_right_eq)
  also have "\<dots> = (m ^ d * r) mod n"
    by (simp only: re mod_mult_right_eq)
  finally have "(m * (r ^ e mod n) mod n) ^ d mod n * ri mod n = (m ^ d * r) mod n * ri mod n"
    by (simp only:)
  also have "\<dots> = (m ^ d * r * ri) mod n"
    by (simp only: mod_mult_left_eq)
  also have "m ^ d * r * ri = m ^ d * (r * ri)"
    by (simp only: mult.assoc)
  also have "(m ^ d * (r * ri)) mod n = (m ^ d * (r * ri mod n)) mod n"
    by (simp only: mod_mult_right_eq)
  also have "\<dots> = m ^ d mod n"
    by (simp only: inv mult_1_right)
  finally show ?thesis .
qed

lemma private_transform_signs:
  assumes key: "private_key_ok rsa p q d iqmp"
    and bal: "p < q * q * q"
    and m: "be_value inout < p * q"
    and r: "coprime r (p * q)"
    and fit: "p * q \<le> 256 ^ length inout"
  shows "\<exists>bl. GFp_rsa_private_transform rsa inout blinding (Some r)
           = (Inr (), be_bytes (length inout) (be_value inout ^ d mod (p * q)), bl)"
proof -
  note facts = private_key_facts [OF key]
  let ?n = "p * q" and ?e = "bn_value (rsa_e rsa)" and ?m = "be_value inout"
  have k: "is_prime p" "is_prime q"
    "bn_value (mont_N (mont_n rsa)) = ?n" "bn_value (mont_N (mont_p rsa)) = p"
    "bn_value (mont_N (mont_q rsa)) = q"
    "?e * d mod (p - 1) = 1" "?e * d mod (q - 1) = 1"
    using key by (simp_all add: private_key_ok_def)
  have cancel: "a ^ (?e * d) mod ?n = a mod ?n" for a
    using k(1,2) facts(4) k(6,7) by (rule rsa_cancel)
  have cop: "coprime r (bn_value (mont_N (mont_n rsa)))" unfolding k(3) by (rule r)
  have n1: "1 < bn_value (mont_N (mont_n rsa))" unfolding k(3) by (rule facts(7))
  obtain ri where ri: "r * ri mod ?n = 1"
    and conv: "GFp_BN_BLINDING_convert (bn_of_nat ?m) blinding rsa (Some r) =
       Some (bn_of_nat (?m * mod_pow r ?e ?n mod ?n),
             \<lparr>blinding_A = bn_of_nat (mod_pow r ?e ?n), blinding_Ai = bn_of_nat ri\<rparr>)"
    using convert_value [OF cop n1, of "bn_of_nat ?m" blinding]
    by (auto simp only: k(3) bn_value_of_nat)
  let ?b = "?m * mod_pow r ?e ?n mod ?n"
  let ?bl = "\<lparr>blinding_A = bn_of_nat (mod_pow r ?e ?n), blinding_Ai = bn_of_nat ri\<rparr>"
  have n0: "0 < ?n" using facts(7) by linarith
  have b: "bn_value (bn_of_nat ?b) < ?n" using n0 by simp
  obtain mp mq where mp: "private_transform_mp rsa (bn_of_nat ?b) = Some mp"
    and mq: "private_transform_mq rsa (bn_of_nat ?b) = Some mq"
    and g: "private_transform_garner rsa mp mq = Some (bn_of_nat (?b ^ d mod ?n))"
    using private_transform_crt [OF key bal b] by (auto simp only: bn_value_of_nat)
  let ?r0 = "?b ^ d mod ?n"
  have "?r0 ^ ?e mod ?n = ?b ^ (?e * d) mod ?n"
    by (simp only: power_mod power_mult [symmetric] mult.commute)
  also have "\<dots> = ?b" using cancel [of ?b] n0 by simp
  finally have vr: "?r0 ^ ?e mod ?n = ?b" .
  have odn: "odd (bn_value (mont_N (mont_n rsa)))" unfolding k(3) by (rule facts(6))
  have ok: "bn_of_nat ?b = bn_of_nat (bn_value (bn_of_nat ?r0) ^ ?e mod bn_value (mont_N (mont_n rsa)))"
    by (simp only: bn_value_of_nat k(3) vr)
  have "?r0 * ri mod ?n < ?n" using n0 by simp
  then have fit': "bn_value (bn_of_nat ?r0) * bn_value (blinding_Ai ?bl) mod bn_value (mont_N (mont_n rsa))
      < 256 ^ length inout"
    using fit by (simp add: k(3))
  have rel: "private_transform_release rsa ?bl (bn_of_nat ?b) (bn_of_nat ?r0) inout
      = (Inr (), be_bytes (length inout) (?r0 * ri mod ?n))"
    using private_transform_release_value [OF odn ok fit'] by (simp add: k(3))
  have "?r0 * ri mod ?n = ?m ^ d mod ?n"
    unfolding mod_pow_def using cancel [of r] ri by (rule unblind_value)
  then have rel': "private_transform_release rsa ?bl (bn_of_nat ?b) (bn_of_nat ?r0) inout
      = (Inr (), be_bytes (length inout) (?m ^ d mod ?n))"
    using rel by (simp only:)
  have ucmp: "\<not> GFp_BN_ucmp (bn_of_nat ?m) (mont_N (mont_n rsa)) \<ge> 0"
    using m by (simp add: GFp_BN_ucmp_def k(3))
  have cmp: "GFp_BN_cmp (mont_N (mont_q rsa)) (mont_N (mont_p rsa)) < 0"
    using facts(4) by (simp add: GFp_BN_cmp_def k(4,5))
  have "GFp_rsa_private_transform rsa inout blinding (Some r)
      = (Inr (), be_bytes (length inout) (?m ^ d mod ?n), ?bl)"
    using ucmp cmp
    by (simp add: GFp_rsa_private_transform_def GFp_BN_bin2bn_def conv mp mq g rel' Let_def)
  then show ?thesis by blast
qed

lemma example_key_ok: "private_key_ok example_key 131071 65537 1840672183 43691"
proof -
  have top: "bn_top (bn_of_nat 131071) = 1" "bn_top (bn_of_nat 8590000127) = 1"
    by (simp_all add: bn_top_def bn_of_nat_def nat_limbs.simps)
  show ?thesis
    by (simp add: private_key_ok_def example_key_def is_prime_131071 is_prime_65537
        mont_R_def top)
qed

section \<open>The claims about the transforms\<close>

lemma check_modulus_and_exponent_cong:
  "bn_value n = bn_value n' \<Longrightarrow> bn_value e = bn_value e' \<Longrightarrow>
     GFp_rsa_check_modulus_and_exponent n e min_bits max_bits
       = GFp_rsa_check_modulus_and_exponent n' e' min_bits max_bits"
  by (simp add: GFp_rsa_check_modulus_and_exponent_def GFp_BN_num_bits_def GFp_BN_is_odd_def
      GFp_BN_ucmp_def Let_def)

lemma example_key_size: "GFp_RSA_size example_key = 5"
  by (simp add: GFp_RSA_size_def example_key_def GFp_BN_num_bytes_def GFp_BN_num_bits_def num_bits_34)

lemma example_check: "GFp_rsa_check_modulus_and_exponent (bn_of_nat 8590000127) (bn_of_nat 7) 34 2048 = Inr ()"
  by (simp add: GFp_rsa_check_modulus_and_exponent_def Let_def kMaxExponentBits_def
      GFp_BN_num_bits_def GFp_BN_is_odd_def GFp_BN_ucmp_def num_bits_34 num_bits_3)

text \<open>
  C1: for a consistent private key whose public part the validator accepts, and a message below
  the modulus in a buffer of the byte length of the modulus, the private transform succeeds and
  the public transform applied to its output, with the same modulus and exponent, gives back
  the message buffer. The primes are of comparable size (\<open>p < q^3\<close>, so that the base is in the
  range of the reduction modulo \<open>q^2\<close>), and the randomness source delivers a value \<open>r\<close> that has
  an inverse modulo \<open>n\<close>.
\<close>

theorem private_then_public_round_trip:
  assumes key: "private_key_ok rsa p q d iqmp"
    and bal: "p < q * q * q"
    and pubn: "be_value public_key_n = p * q"
    and pube: "be_value public_key_e = bn_value (rsa_e rsa)"
    and chk: "GFp_rsa_check_modulus_and_exponent (mont_N (mont_n rsa)) (rsa_e rsa) min_bits max_bits = Inr ()"
    and len: "length inout = GFp_RSA_size rsa"
    and olen: "length out = GFp_RSA_size rsa"
    and m: "be_value inout < p * q"
    and r: "coprime r (p * q)"
  shows "fst (GFp_rsa_private_transform rsa inout blinding (Some r)) = Inr ()
     \<and> GFp_rsa_public_decrypt out public_key_n public_key_e
          (fst (snd (GFp_rsa_private_transform rsa inout blinding (Some r)))) min_bits max_bits
        = (Inr (), inout)"
proof -
  note facts = private_key_facts [OF key]
  let ?n = "p * q" and ?e = "bn_value (rsa_e rsa)" and ?m = "be_value inout"
  let ?sig = "be_bytes (length inout) (?m ^ d mod ?n)"
  have k: "is_prime p" "is_prime q" "bn_value (mont_N (mont_n rsa)) = ?n"
    "?e * d mod (p - 1) = 1" "?e * d mod (q - 1) = 1"
    using key by (simp_all add: private_key_ok_def)
  have size: "GFp_RSA_size rsa = (num_bits_nat ?n + 7) div 8"
    by (simp add: GFp_RSA_size_def GFp_BN_num_bytes_def GFp_BN_num_bits_def k(3))
  have fit: "?n < 256 ^ length inout"
    using num_bytes_bound [of ?n] by (simp only: len size)
  then have fit': "?n \<le> 256 ^ length inout" by simp
  obtain bl where priv: "GFp_rsa_private_transform rsa inout blinding (Some r) = (Inr (), ?sig, bl)"
    using private_transform_signs [OF key bal m r fit'] by blast
  have n0: "0 < ?n" using facts(7) by linarith
  have s_lt: "?m ^ d mod ?n < ?n" using n0 by simp
  then have "?m ^ d mod ?n < 256 ^ length inout" using fit by simp
  then have sval: "be_value ?sig = ?m ^ d mod ?n"
    by (simp add: be_value_be_bytes)
  have psz: "GFp_BN_num_bytes (bn_of_nat (be_value public_key_n)) = GFp_RSA_size rsa"
    by (simp add: size pubn GFp_BN_num_bytes_def GFp_BN_num_bits_def)
  have o: "length out = GFp_BN_num_bytes (bn_of_nat (be_value public_key_n))"
    by (simp only: psz olen)
  have i: "length ?sig = GFp_BN_num_bytes (bn_of_nat (be_value public_key_n))"
    by (simp only: psz len length_be_bytes)
  have chk': "GFp_rsa_check_modulus_and_exponent (bn_of_nat ?n) (bn_of_nat ?e) min_bits max_bits
      = Inr ()"
    using chk check_modulus_and_exponent_cong
      [of "bn_of_nat ?n" "mont_N (mont_n rsa)" "bn_of_nat ?e" "rsa_e rsa" min_bits max_bits]
    by (simp add: k(3))
  have "(?m ^ d mod ?n) ^ ?e mod ?n = ?m ^ (?e * d) mod ?n"
    by (simp only: power_mod power_mult [symmetric] mult.commute)
  also have "\<dots> = ?m mod ?n"
    using k(1,2) facts(4) k(4,5) by (rule rsa_cancel)
  also have "\<dots> = ?m" using m by simp
  finally have again: "(?m ^ d mod ?n) ^ ?e mod ?n = ?m" .
  have "GFp_rsa_public_decrypt out public_key_n public_key_e ?sig min_bits max_bits
      = (Inr (), be_bytes (length out) ?m)"
    using s_lt facts(6)
    by (simp add: public_decrypt_sized [OF o i] chk' sval pubn pube again)
  also have "be_bytes (length out) ?m = inout"
    using be_bytes_be_value [of inout] by (simp only: olen len [symmetric])
  finally show ?thesis by (simp add: priv)
qed

theorem private_then_public_round_trip_witness:
  "private_key_ok example_key 131071 65537 1840672183 43691
   \<and> (131071::nat) < 65537 * 65537 * 65537
   \<and> be_value [2, 0, 0, 255, 255] = 131071 * 65537
   \<and> be_value [7] = bn_value (rsa_e example_key)
   \<and> GFp_rsa_check_modulus_and_exponent (mont_N (mont_n example_key)) (rsa_e example_key) 34 2048 = Inr ()
   \<and> length [0, 0, 0, 0, 42 :: u8] = GFp_RSA_size example_key
   \<and> length [0, 0, 0, 0, 0 :: u8] = GFp_RSA_size example_key
   \<and> be_value [0, 0, 0, 0, 42] < 131071 * 65537
   \<and> coprime (2::nat) (131071 * 65537)
   \<and> fst (GFp_rsa_private_transform example_key [0, 0, 0, 0, 42] example_blinding (Some 2)) = Inr ()
   \<and> GFp_rsa_public_decrypt [0, 0, 0, 0, 0] [2, 0, 0, 255, 255] [7]
        (fst (snd (GFp_rsa_private_transform example_key [0, 0, 0, 0, 42] example_blinding (Some 2))))
        34 2048
      = (Inr (), [0, 0, 0, 0, 42])"
proof -
  have h2: "(131071::nat) < 65537 * 65537 * 65537" by simp
  have h3: "be_value [2, 0, 0, 255, 255] = 131071 * 65537" by (simp add: be_value_n_bytes)
  have h4: "be_value [7] = bn_value (rsa_e example_key)" by (simp add: be_value_7 example_key_def)
  have h5: "GFp_rsa_check_modulus_and_exponent (mont_N (mont_n example_key)) (rsa_e example_key) 34 2048 = Inr ()"
    by (simp add: example_key_def example_check)
  have h6: "length [0, 0, 0, 0, 42 :: u8] = GFp_RSA_size example_key" by (simp add: example_key_size)
  have h7: "length [0, 0, 0, 0, 0 :: u8] = GFp_RSA_size example_key" by (simp add: example_key_size)
  have h8: "be_value [0, 0, 0, 0, 42] < 131071 * 65537" by (simp add: be_value_42)
  have h9: "coprime (2::nat) (131071 * 65537)" by simp
  note c = private_then_public_round_trip
    [OF example_key_ok h2 h3 h4 h5 h6 h7 h8 h9, of example_blinding]
  show ?thesis
    by (intro conjI example_key_ok h2 h3 h4 h5 h6 h7 h8 h9 c [THEN conjunct1] c [THEN conjunct2])
qed

lemma small_key_ok: "private_key_ok small_key 5 3 3 2"
proof -
  have top: "bn_top (bn_of_nat 5) = 1" "bn_top (bn_of_nat 15) = 1"
    by (simp_all add: bn_top_def bn_of_nat_def nat_limbs.simps)
  have pr: "is_prime 5" "is_prime 3"
    by (simp_all add: is_prime_trial no_divisor.simps)
  show ?thesis
    by (simp add: private_key_ok_def small_key_def pr mont_R_def top)
qed

text \<open>
  C2: for a consistent private key and any base \<open>b\<close>, with \<open>mp = (b mod p)^dmp1 mod p\<close> and
  \<open>mq = (b mod q)^dmq1 mod q\<close>, the recombination of lines 285 to 288 returns
  \<open>b^d mod n\<close>, and that number is Garner's \<open>mq + q * ((mp - mq) * iqmp mod p)\<close>.
\<close>

theorem garner_recombination_is_private_power:
  assumes key: "private_key_ok rsa p q d iqmp"
    and mp: "bn_value mp = (b mod p) ^ bn_value (dmp1 rsa) mod p"
    and mq: "bn_value mq = (b mod q) ^ bn_value (dmq1 rsa) mod q"
  shows "private_transform_garner rsa mp mq = Some (bn_of_nat (b ^ d mod (p * q)))
     \<and> int (b ^ d mod (p * q))
         = int (bn_value mq) + int q * ((int (bn_value mp) - int (bn_value mq)) * int iqmp mod int p)"
  using garner_stage_correct [OF key mp mq] by (rule conjI)

theorem garner_recombination_is_private_power_witness:
  "private_key_ok small_key 5 3 3 2
   \<and> bn_value (bn_of_nat 3) = (7 mod 5) ^ bn_value (dmp1 small_key) mod 5
   \<and> bn_value (bn_of_nat 1) = (7 mod 3) ^ bn_value (dmq1 small_key) mod 3
   \<and> private_transform_garner small_key (bn_of_nat 3) (bn_of_nat 1) = Some (bn_of_nat (7 ^ 3 mod (5 * 3)))
   \<and> int (7 ^ 3 mod (5 * 3))
       = int (bn_value (bn_of_nat 1))
         + int 3 * ((int (bn_value (bn_of_nat 3)) - int (bn_value (bn_of_nat 1))) * int 2 mod int 5)"
proof -
  have h2: "bn_value (bn_of_nat 3) = (7 mod 5) ^ bn_value (dmp1 small_key) mod 5"
    by (simp add: small_key_def)
  have h3: "bn_value (bn_of_nat 1) = (7 mod 3) ^ bn_value (dmq1 small_key) mod 3"
    by (simp add: small_key_def)
  note c = garner_recombination_is_private_power [OF small_key_ok h2 h3]
  show ?thesis
    by (intro conjI small_key_ok h2 h3 c [THEN conjunct1] c [THEN conjunct2])
qed

lemma release_fails_closed:
  assumes "bn_of_nat (bn_value r ^ bn_value (rsa_e rsa) mod bn_value (mont_N (mont_n rsa))) \<noteq> base"
  shows "private_transform_release rsa blinding base r inout = (Inl ERR_R_INTERNAL_ERROR, inout)"
proof (cases "odd (bn_value (mont_N (mont_n rsa)))")
  case True
  let ?vrfy = "bn_of_nat (bn_value r ^ bn_value (rsa_e rsa) mod bn_value (mont_N (mont_n rsa)))"
  have vr: "GFp_BN_mod_exp_mont_vartime r (rsa_e rsa) (mont_N (mont_n rsa)) (Some (mont_n rsa))
      = Some ?vrfy"
    using True by (simp add: GFp_BN_mod_exp_mont_vartime_def mod_pow_def)
  have "bn_top ?vrfy \<noteq> bn_top base \<or> GFp_memcmp (bn_d ?vrfy) (bn_d base) (bn_top ?vrfy) \<noteq> 0"
    using assms bignum_differs [of ?vrfy base] by simp
  then show ?thesis
    by (simp only: private_transform_release_def vr option.case if_True)
next
  case False
  then show ?thesis
    by (simp add: private_transform_release_def GFp_BN_mod_exp_mont_vartime_def)
qed

text \<open>
  C3: in a call of \<open>GFp_rsa_private_transform\<close> that gets as far as the recombination, with
  blinded base \<open>base\<close> and recombined result \<open>r\<close>: when \<open>r\<close> raised to the public exponent modulo
  \<open>n\<close> is not the blinded base (as a number, or in the words and the length of its
  representation), the call fails with the internal error and the caller's buffer is the one
  passed in: nothing computed from \<open>r\<close> is written.
\<close>

theorem fault_check_fails_closed:
  assumes small: "be_value inout < bn_value (mont_N (mont_n rsa))"
    and conv: "GFp_BN_BLINDING_convert (bn_of_nat (be_value inout)) blinding rsa rng
                 = Some (base, blinding')"
    and qp: "GFp_BN_cmp (mont_N (mont_q rsa)) (mont_N (mont_p rsa)) < 0"
    and mp: "private_transform_mp rsa base = Some mp"
    and mq: "private_transform_mq rsa base = Some mq"
    and r: "private_transform_garner rsa mp mq = Some r"
    and wrong: "bn_of_nat (bn_value r ^ bn_value (rsa_e rsa) mod bn_value (mont_N (mont_n rsa)))
                 \<noteq> base"
  shows "GFp_rsa_private_transform rsa inout blinding rng
           = (Inl ERR_R_INTERNAL_ERROR, inout, blinding')"
proof -
  have ucmp: "\<not> GFp_BN_ucmp (bn_of_nat (be_value inout)) (mont_N (mont_n rsa)) \<ge> 0"
    using small by (simp add: GFp_BN_ucmp_def)
  have rel: "private_transform_release rsa blinding' base r inout = (Inl ERR_R_INTERNAL_ERROR, inout)"
    using wrong by (rule release_fails_closed)
  show ?thesis
    using ucmp qp
    by (simp add: GFp_rsa_private_transform_def GFp_BN_bin2bn_def conv mp mq r rel Let_def)
qed

lemma be_value_4: "be_value [4] = 4"
  by (simp add: be_value_def)

lemma top_5_15: "bn_top (bn_of_nat 5) = 1" "bn_top (bn_of_nat 15) = 1"
  by (simp_all add: bn_top_def bn_of_nat_def nat_limbs.simps)

theorem fault_check_fails_closed_witness:
  "be_value [4] < bn_value (mont_N (mont_n faulty_key))
   \<and> GFp_BN_BLINDING_convert (bn_of_nat (be_value [4])) example_blinding faulty_key (Some 2)
       = Some (bn_of_nat 2, \<lparr>blinding_A = bn_of_nat 8, blinding_Ai = bn_of_nat 8\<rparr>)
   \<and> GFp_BN_cmp (mont_N (mont_q faulty_key)) (mont_N (mont_p faulty_key)) < 0
   \<and> private_transform_mp faulty_key (bn_of_nat 2) = Some (bn_of_nat 4)
   \<and> private_transform_mq faulty_key (bn_of_nat 2) = Some (bn_of_nat 2)
   \<and> private_transform_garner faulty_key (bn_of_nat 4) (bn_of_nat 2) = Some (bn_of_nat 14)
   \<and> bn_of_nat (bn_value (bn_of_nat 14) ^ bn_value (rsa_e faulty_key)
        mod bn_value (mont_N (mont_n faulty_key))) \<noteq> bn_of_nat 2
   \<and> GFp_rsa_private_transform faulty_key [4] example_blinding (Some 2)
       = (Inl ERR_R_INTERNAL_ERROR, [4], \<lparr>blinding_A = bn_of_nat 8, blinding_Ai = bn_of_nat 8\<rparr>)"
proof -
  have h1: "be_value [4] < bn_value (mont_N (mont_n faulty_key))"
    by (simp add: be_value_4 faulty_key_def)
  have inv: "mod_inverse 2 15 = Some 8"
    by (simp add: mod_inverse_def egcd.simps)
  have h2: "GFp_BN_BLINDING_convert (bn_of_nat (be_value [4])) example_blinding faulty_key (Some 2)
       = Some (bn_of_nat 2, \<lparr>blinding_A = bn_of_nat 8, blinding_Ai = bn_of_nat 8\<rparr>)"
    by (simp add: GFp_BN_BLINDING_convert_def be_value_4 faulty_key_def inv mod_pow_def Let_def)
  have h3: "GFp_BN_cmp (mont_N (mont_q faulty_key)) (mont_N (mont_p faulty_key)) < 0"
    by (simp add: GFp_BN_cmp_def faulty_key_def)
  have h4: "private_transform_mp faulty_key (bn_of_nat 2) = Some (bn_of_nat 4)"
    by (simp add: private_transform_mp_def GFp_BN_reduce_mont_def GFp_BN_mod_exp_mont_consttime_def
        faulty_key_def mod_pow_def)
  have h5: "private_transform_mq faulty_key (bn_of_nat 2) = Some (bn_of_nat 2)"
    by (simp add: private_transform_mq_def GFp_BN_reduce_mont_def GFp_BN_mod_exp_mont_consttime_def
        faulty_key_def mod_pow_def)
  have g: "private_transform_garner faulty_key (bn_of_nat 4) (bn_of_nat 2) =
     Some (bn_of_nat (bn_value (bn_of_nat 2) + 3 *
        ((if bn_value (bn_of_nat 2) \<le> bn_value (bn_of_nat 4)
          then bn_value (bn_of_nat 4) - bn_value (bn_of_nat 2)
          else bn_value (bn_of_nat 4) + 5 - bn_value (bn_of_nat 2)) * 2 mod 5)))"
    by (rule private_transform_garner_value)
      (simp_all add: faulty_key_def mont_R_def top_5_15)
  have h6: "private_transform_garner faulty_key (bn_of_nat 4) (bn_of_nat 2) = Some (bn_of_nat 14)"
    using g by simp
  have h7: "bn_of_nat (bn_value (bn_of_nat 14) ^ bn_value (rsa_e faulty_key)
        mod bn_value (mont_N (mont_n faulty_key))) \<noteq> bn_of_nat 2"
    by (simp add: faulty_key_def bn_of_nat_eq_iff)
  show ?thesis
    by (intro conjI h1 h2 h3 h4 h5 h6 h7 fault_check_fails_closed [OF h1 h2 h3 h4 h5 h6 h7])
qed

text \<open>
  C6: an input whose value is not below the modulus is rejected by the private transform with
  \<open>RSA_R_DATA_TOO_LARGE_FOR_MODULUS\<close>; the public transform fails on it and leaves the output
  buffer as it was, and its reason is \<open>RSA_R_DATA_TOO_LARGE_FOR_MODULUS\<close> for a block of the
  byte length of the modulus and a key that the validator accepts. No input at or above the
  modulus is reduced and transformed.
\<close>

theorem data_too_large_rejected:
  "(bn_value (mont_N (mont_n rsa)) \<le> be_value inout \<longrightarrow>
      GFp_rsa_private_transform rsa inout blinding rng
        = (Inl RSA_R_DATA_TOO_LARGE_FOR_MODULUS, inout, blinding))
   \<and> (be_value public_key_n \<le> be_value inp \<longrightarrow>
        fst (GFp_rsa_public_decrypt out public_key_n public_key_e inp min_bits max_bits) \<noteq> Inr ()
        \<and> snd (GFp_rsa_public_decrypt out public_key_n public_key_e inp min_bits max_bits) = out
        \<and> (length out = GFp_BN_num_bytes (bn_of_nat (be_value public_key_n))
             \<and> length inp = GFp_BN_num_bytes (bn_of_nat (be_value public_key_n))
             \<and> GFp_rsa_check_modulus_and_exponent (bn_of_nat (be_value public_key_n))
                  (bn_of_nat (be_value public_key_e)) min_bits max_bits = Inr ()
             \<longrightarrow> GFp_rsa_public_decrypt out public_key_n public_key_e inp min_bits max_bits
                   = (Inl RSA_R_DATA_TOO_LARGE_FOR_MODULUS, out)))"
proof (intro conjI impI)
  assume "bn_value (mont_N (mont_n rsa)) \<le> be_value inout"
  then show "GFp_rsa_private_transform rsa inout blinding rng
      = (Inl RSA_R_DATA_TOO_LARGE_FOR_MODULUS, inout, blinding)"
    by (simp add: GFp_rsa_private_transform_def GFp_BN_bin2bn_def GFp_BN_ucmp_def)
next
  let ?sz = "GFp_BN_num_bytes (bn_of_nat (be_value public_key_n))"
  let ?res = "GFp_rsa_public_decrypt out public_key_n public_key_e inp min_bits max_bits"
  assume big: "be_value public_key_n \<le> be_value inp"
  have "fst ?res \<noteq> Inr () \<and> snd ?res = out"
  proof (cases "length out = ?sz \<and> length inp = ?sz")
    case True
    then show ?thesis
      using big public_decrypt_sized [of out public_key_n inp public_key_e min_bits max_bits]
      by (simp split: sum.splits)
  next
    case False
    show ?thesis
    proof (cases "length out = ?sz")
      case o: True
      then have "length inp \<noteq> ?sz" using False by simp
      from public_decrypt_size_checks(2) [OF o this] show ?thesis by simp
    next
      case o: False
      from public_decrypt_size_checks(1) [OF o] show ?thesis by simp
    qed
  qed
  then show "fst ?res \<noteq> Inr ()" and "snd ?res = out" by simp_all
next
  assume big: "be_value public_key_n \<le> be_value inp"
    and ok: "length out = GFp_BN_num_bytes (bn_of_nat (be_value public_key_n))
      \<and> length inp = GFp_BN_num_bytes (bn_of_nat (be_value public_key_n))
      \<and> GFp_rsa_check_modulus_and_exponent (bn_of_nat (be_value public_key_n))
           (bn_of_nat (be_value public_key_e)) min_bits max_bits = Inr ()"
  then show "GFp_rsa_public_decrypt out public_key_n public_key_e inp min_bits max_bits
      = (Inl RSA_R_DATA_TOO_LARGE_FOR_MODULUS, out)"
    using public_decrypt_sized [of out public_key_n inp public_key_e min_bits max_bits]
    by simp
qed

lemma be_value_ff_bytes: "be_value [255, 255, 255, 255, 255] = 1099511627775"
  by (simp add: be_value_def)

lemma example_n_size: "GFp_BN_num_bytes (bn_of_nat 8590000127) = 5"
  by (simp add: GFp_BN_num_bytes_def GFp_BN_num_bits_def num_bits_34)

theorem data_too_large_rejected_witness:
  "bn_value (mont_N (mont_n example_key)) \<le> be_value [255, 255, 255, 255, 255]
   \<and> GFp_rsa_private_transform example_key [255, 255, 255, 255, 255] example_blinding (Some 2)
       = (Inl RSA_R_DATA_TOO_LARGE_FOR_MODULUS, [255, 255, 255, 255, 255], example_blinding)
   \<and> be_value [2, 0, 0, 255, 255] \<le> be_value [255, 255, 255, 255, 255]
   \<and> length [0, 0, 0, 0, 0 :: u8] = GFp_BN_num_bytes (bn_of_nat (be_value [2, 0, 0, 255, 255]))
   \<and> length [255, 255, 255, 255, 255 :: u8] = GFp_BN_num_bytes (bn_of_nat (be_value [2, 0, 0, 255, 255]))
   \<and> GFp_rsa_check_modulus_and_exponent (bn_of_nat (be_value [2, 0, 0, 255, 255]))
        (bn_of_nat (be_value [7])) 34 2048 = Inr ()
   \<and> GFp_rsa_public_decrypt [0, 0, 0, 0, 0] [2, 0, 0, 255, 255] [7] [255, 255, 255, 255, 255] 34 2048
       = (Inl RSA_R_DATA_TOO_LARGE_FOR_MODULUS, [0, 0, 0, 0, 0])"
proof -
  have h1: "bn_value (mont_N (mont_n example_key)) \<le> be_value [255, 255, 255, 255, 255]"
    by (simp add: example_key_def be_value_ff_bytes)
  have h2: "be_value [2, 0, 0, 255, 255] \<le> be_value [255, 255, 255, 255, 255]"
    by (simp add: be_value_n_bytes be_value_ff_bytes)
  have h3: "length [0, 0, 0, 0, 0 :: u8] = GFp_BN_num_bytes (bn_of_nat (be_value [2, 0, 0, 255, 255]))"
    by (simp add: be_value_n_bytes example_n_size)
  have h4: "length [255, 255, 255, 255, 255 :: u8] = GFp_BN_num_bytes (bn_of_nat (be_value [2, 0, 0, 255, 255]))"
    by (simp add: be_value_n_bytes example_n_size)
  have h5: "GFp_rsa_check_modulus_and_exponent (bn_of_nat (be_value [2, 0, 0, 255, 255]))
        (bn_of_nat (be_value [7])) 34 2048 = Inr ()"
    by (simp add: be_value_n_bytes be_value_7 example_check)
  note c = data_too_large_rejected
    [of example_key "[255, 255, 255, 255, 255]" example_blinding "Some 2"
        "[2, 0, 0, 255, 255]" "[255, 255, 255, 255, 255]" "[0, 0, 0, 0, 0]" "[7]" 34 2048]
  note c1 = c [THEN conjunct1, rule_format, OF h1]
  note c2 = c [THEN conjunct2, rule_format, OF h2, THEN conjunct2, THEN conjunct2, rule_format,
      OF conjI [OF h3 conjI [OF h4 h5]]]
  show ?thesis
    by (intro conjI h1 c1 h2 h3 h4 h5 c2)
qed

lemma be_value_6: "be_value [6] = 6"
  by (simp add: be_value_def)

text \<open>
  C7, as the code has it: the public transform fails with \<open>RSA_R_OUTPUT_BUFFER_TOO_SMALL\<close> for
  every output buffer whose length differs from the byte length of the modulus, and with
  \<open>RSA_R_DATA_LEN_NOT_EQUAL_TO_MOD_LEN\<close> for every input buffer whose length differs from it
  when the output length is right, whatever the exponent, the content of the input and the
  bounds, and with the output buffer as it was. The private transform has no check of \<open>len\<close>:
  no call of it fails with either of the two reasons.
\<close>

theorem buffer_size_checks:
  "(length out \<noteq> GFp_BN_num_bytes (bn_of_nat (be_value public_key_n)) \<longrightarrow>
      GFp_rsa_public_decrypt out public_key_n public_key_e inp min_bits max_bits
        = (Inl RSA_R_OUTPUT_BUFFER_TOO_SMALL, out))
   \<and> (length out = GFp_BN_num_bytes (bn_of_nat (be_value public_key_n))
        \<and> length inp \<noteq> GFp_BN_num_bytes (bn_of_nat (be_value public_key_n)) \<longrightarrow>
      GFp_rsa_public_decrypt out public_key_n public_key_e inp min_bits max_bits
        = (Inl RSA_R_DATA_LEN_NOT_EQUAL_TO_MOD_LEN, out))
   \<and> fst (GFp_rsa_private_transform rsa inout blinding rng) \<noteq> Inl RSA_R_OUTPUT_BUFFER_TOO_SMALL
   \<and> fst (GFp_rsa_private_transform rsa inout blinding rng)
        \<noteq> Inl RSA_R_DATA_LEN_NOT_EQUAL_TO_MOD_LEN"
proof (intro conjI impI)
  assume "length out \<noteq> GFp_BN_num_bytes (bn_of_nat (be_value public_key_n))"
  then show "GFp_rsa_public_decrypt out public_key_n public_key_e inp min_bits max_bits
        = (Inl RSA_R_OUTPUT_BUFFER_TOO_SMALL, out)"
    by (rule public_decrypt_size_checks(1))
next
  assume "length out = GFp_BN_num_bytes (bn_of_nat (be_value public_key_n))
        \<and> length inp \<noteq> GFp_BN_num_bytes (bn_of_nat (be_value public_key_n))"
  then show "GFp_rsa_public_decrypt out public_key_n public_key_e inp min_bits max_bits
        = (Inl RSA_R_DATA_LEN_NOT_EQUAL_TO_MOD_LEN, out)"
    by (intro public_decrypt_size_checks(2)) simp_all
next
  have rel: "x \<in> {Inr (), Inl ERR_R_INTERNAL_ERROR}"
    if "private_transform_release rsa bl base r inout = (x, y)" for bl base r x y
    using that
    by (auto simp: private_transform_release_def GFp_BN_bn2bin_padded_def
        GFp_BN_BLINDING_invert_def split: option.splits if_splits)
  have "fst (GFp_rsa_private_transform rsa inout blinding rng)
      \<in> {Inr (), Inl ERR_R_INTERNAL_ERROR, Inl NO_REASON, Inl RSA_R_DATA_TOO_LARGE_FOR_MODULUS,
          Inl ASSERTION_FAILURE}"
    by (auto simp: GFp_rsa_private_transform_def Let_def split: option.splits prod.splits
        dest: rel)
  then show "fst (GFp_rsa_private_transform rsa inout blinding rng)
        \<noteq> Inl RSA_R_OUTPUT_BUFFER_TOO_SMALL"
    and "fst (GFp_rsa_private_transform rsa inout blinding rng)
        \<noteq> Inl RSA_R_DATA_LEN_NOT_EQUAL_TO_MOD_LEN"
    by auto
qed

lemma be_value_42_long: "be_value [0, 0, 0, 0, 0, 42] = 42"
  by (simp add: be_value_def)

theorem buffer_size_checks_witness:
  "length [0, 0, 0, 0 :: u8] \<noteq> GFp_BN_num_bytes (bn_of_nat (be_value [2, 0, 0, 255, 255]))
   \<and> GFp_rsa_public_decrypt [0, 0, 0, 0] [2, 0, 0, 255, 255] [7] [1, 127, 148, 40, 146] 34 2048
        = (Inl RSA_R_OUTPUT_BUFFER_TOO_SMALL, [0, 0, 0, 0])
   \<and> length [0, 0, 0, 0, 0 :: u8] = GFp_BN_num_bytes (bn_of_nat (be_value [2, 0, 0, 255, 255]))
   \<and> length [127, 148, 40, 146 :: u8] \<noteq> GFp_BN_num_bytes (bn_of_nat (be_value [2, 0, 0, 255, 255]))
   \<and> GFp_rsa_public_decrypt [0, 0, 0, 0, 0] [2, 0, 0, 255, 255] [7] [127, 148, 40, 146] 34 2048
        = (Inl RSA_R_DATA_LEN_NOT_EQUAL_TO_MOD_LEN, [0, 0, 0, 0, 0])
   \<and> fst (GFp_rsa_private_transform example_key [0, 0, 0, 0, 0, 42] example_blinding (Some 2))
        \<noteq> Inl RSA_R_OUTPUT_BUFFER_TOO_SMALL
   \<and> fst (GFp_rsa_private_transform example_key [0, 0, 0, 0, 0, 42] example_blinding (Some 2))
        \<noteq> Inl RSA_R_DATA_LEN_NOT_EQUAL_TO_MOD_LEN"
proof -
  have h1: "length [0, 0, 0, 0 :: u8] \<noteq> GFp_BN_num_bytes (bn_of_nat (be_value [2, 0, 0, 255, 255]))"
    by (simp add: be_value_n_bytes example_n_size)
  have h2: "length [0, 0, 0, 0, 0 :: u8] = GFp_BN_num_bytes (bn_of_nat (be_value [2, 0, 0, 255, 255]))"
    by (simp add: be_value_n_bytes example_n_size)
  have h3: "length [127, 148, 40, 146 :: u8] \<noteq> GFp_BN_num_bytes (bn_of_nat (be_value [2, 0, 0, 255, 255]))"
    by (simp add: be_value_n_bytes example_n_size)
  note c1 = buffer_size_checks
    [of "[0, 0, 0, 0]" "[2, 0, 0, 255, 255]" "[7]" "[1, 127, 148, 40, 146]" 34 2048,
      THEN conjunct1, rule_format, OF h1]
  note c2 = buffer_size_checks
    [of "[0, 0, 0, 0, 0]" "[2, 0, 0, 255, 255]" "[7]" "[127, 148, 40, 146]" 34 2048,
      THEN conjunct2, THEN conjunct1, rule_format, OF conjI [OF h2 h3]]
  note c3 = buffer_size_checks
    [THEN conjunct2, THEN conjunct2,
      of example_key "[0, 0, 0, 0, 0, 42]" example_blinding "Some 2"]
  show ?thesis
    by (intro conjI h1 c1 h2 h3 c2 c3 [THEN conjunct1] c3 [THEN conjunct2])
qed

theorem buffer_size_checks_counterexample:
  "length [0, 0, 0, 0, 0, 42 :: u8] \<noteq> GFp_RSA_size example_key
   \<and> fst (GFp_rsa_private_transform example_key [0, 0, 0, 0, 0, 42] example_blinding (Some 2)) = Inr ()"
proof -
  have m: "be_value [0, 0, 0, 0, 0, 42] < 131071 * 65537" by (simp add: be_value_42_long)
  have r: "coprime (2::nat) (131071 * 65537)" by simp
  have fit: "(131071::nat) * 65537 \<le> 256 ^ length [0, 0, 0, 0, 0, 42 :: u8]" by simp
  have bal: "(131071::nat) < 65537 * 65537 * 65537" by simp
  obtain bl res where "GFp_rsa_private_transform example_key [0, 0, 0, 0, 0, 42] example_blinding (Some 2)
      = (Inr (), res, bl)"
    using private_transform_signs [OF example_key_ok bal m r fit, of example_blinding] by blast
  then show ?thesis by (simp add: example_key_size)
qed

lemma lopsided_key_ok: "private_key_ok lopsided_key 11 3 7 4"
proof -
  have top: "bn_top (bn_of_nat 11) = 1" "bn_top (bn_of_nat 33) = 1"
    by (simp_all add: bn_top_def bn_of_nat_def nat_limbs.simps)
  have pr: "is_prime 11" "is_prime 3"
    by (simp_all add: is_prime_trial no_divisor.simps)
  show ?thesis
    by (simp add: private_key_ok_def lopsided_key_def pr mont_R_def top)
qed

text \<open>
  C8, as the code has it: for \<open>1 < q < p\<close> and \<open>n = p * q\<close> the chains \<open>p < n < p^2\<close> and
  \<open>q < q^2 < n\<close> hold, and \<open>n < q^3\<close> holds exactly when \<open>p < q^2\<close>. For a base below \<open>n\<close> the
  single reduction modulo \<open>p\<close> of line 256 gives the base modulo \<open>p\<close>, so that lines 256 and 257
  compute \<open>(base mod p)^dmp1 mod p\<close>; and whenever \<open>p \<le> q^3\<close> (so also where \<open>n < q^3\<close> fails) the
  two reductions of lines 266 and 267 give the base modulo \<open>q\<close>, so that lines 266 to 268
  compute \<open>(base mod q)^dmq1 mod q\<close>.
\<close>

theorem reductions_in_range:
  assumes "1 < q" "q < p" "odd p" "odd q"
    and "bn_value (mont_N (mont_p rsa)) = p" "bn_value (mont_N (mont_q rsa)) = q"
    and "bn_value (mont_N (mont_qq rsa)) = q * q"
    and "bn_value base < p * q"
  shows "p < p * q \<and> p * q < p * p \<and> q < q * q \<and> q * q < p * q
     \<and> (p * q < q * q * q \<longleftrightarrow> p < q * q)
     \<and> GFp_BN_reduce_mont base (mont_p rsa) = Some (bn_of_nat (bn_value base mod p))
     \<and> private_transform_mp rsa base
         = Some (bn_of_nat ((bn_value base mod p) ^ bn_value (dmp1 rsa) mod p))
     \<and> (p \<le> q * q * q \<longrightarrow>
          GFp_BN_reduce_mont base (mont_qq rsa) = Some (bn_of_nat (bn_value base mod (q * q)))
          \<and> GFp_BN_reduce_mont (bn_of_nat (bn_value base mod (q * q))) (mont_q rsa)
              = Some (bn_of_nat (bn_value base mod q))
          \<and> private_transform_mq rsa base
              = Some (bn_of_nat ((bn_value base mod q) ^ bn_value (dmq1 rsa) mod q)))"
proof -
  have q0: "0 < q" and p0: "0 < p" using assms(1,2) by simp_all
  have c1: "p < p * q" using assms(1) p0 by simp
  have c2: "p * q < p * p" using assms(2) p0 by simp
  have c3: "q < q * q" using assms(1) by simp
  have c4: "q * q < p * q" using assms(2) q0 by simp
  have c5: "p * q < q * q * q \<longleftrightarrow> p < q * q" using q0 by simp
  have bp: "bn_value base < p * p" using assms(8) c2 by (rule less_trans)
  then have r1: "GFp_BN_reduce_mont base (mont_p rsa) = Some (bn_of_nat (bn_value base mod p))"
    using assms(3) by (simp add: GFp_BN_reduce_mont_def assms(5))
  have odp: "odd (bn_value (mont_N (mont_p rsa)))"
    unfolding assms(5) by (rule assms(3))
  have bp': "bn_value base < bn_value (mont_N (mont_p rsa)) * bn_value (mont_N (mont_p rsa))"
    unfolding assms(5) by (rule bp)
  have m1: "private_transform_mp rsa base
         = Some (bn_of_nat ((bn_value base mod p) ^ bn_value (dmp1 rsa) mod p))"
    using private_transform_mp_value [OF odp bp'] by (simp only: assms(5) mod_pow_def)
  have r2: "GFp_BN_reduce_mont base (mont_qq rsa) = Some (bn_of_nat (bn_value base mod (q * q)))
      \<and> GFp_BN_reduce_mont (bn_of_nat (bn_value base mod (q * q))) (mont_q rsa)
          = Some (bn_of_nat (bn_value base mod q))
      \<and> private_transform_mq rsa base
          = Some (bn_of_nat ((bn_value base mod q) ^ bn_value (dmq1 rsa) mod q))"
    if pq: "p \<le> q * q * q"
  proof -
    have "p * q \<le> (q * q * q) * q" using pq by (rule mult_le_mono1)
    also have "\<dots> = (q * q) * (q * q)" by (simp only: mult.assoc)
    finally have "p * q \<le> (q * q) * (q * q)" .
    with assms(8) have range: "bn_value base < (q * q) * (q * q)" by (rule less_le_trans)
    then have s1: "GFp_BN_reduce_mont base (mont_qq rsa) = Some (bn_of_nat (bn_value base mod (q * q)))"
      using assms(4) by (simp add: GFp_BN_reduce_mont_def assms(7))
    have "bn_value base mod (q * q) < q * q" using q0 by simp
    moreover have "bn_value base mod (q * q) mod q = bn_value base mod q"
      by (simp add: mod_mod_cancel)
    ultimately have s2: "GFp_BN_reduce_mont (bn_of_nat (bn_value base mod (q * q))) (mont_q rsa)
          = Some (bn_of_nat (bn_value base mod q))"
      using assms(4) by (simp add: GFp_BN_reduce_mont_def assms(6))
    have s3: "private_transform_mq rsa base
          = Some (bn_of_nat ((bn_value base mod q) ^ bn_value (dmq1 rsa) mod q))"
      using private_transform_mq_value [OF assms(7) assms(6) assms(4) range]
      by (simp only: mod_pow_def)
    show ?thesis by (intro conjI s1 s2 s3)
  qed
  show ?thesis
    using c1 c2 c3 c4 c5 r1 m1 r2 by blast
qed

theorem reductions_in_range_witness:
  "(1::nat) < 3 \<and> (3::nat) < 11 \<and> odd (11::nat) \<and> odd (3::nat)
   \<and> bn_value (mont_N (mont_p lopsided_key)) = 11
   \<and> bn_value (mont_N (mont_q lopsided_key)) = 3
   \<and> bn_value (mont_N (mont_qq lopsided_key)) = 3 * 3
   \<and> bn_value (bn_of_nat 29) < 11 * 3
   \<and> (11::nat) \<le> 3 * 3 * 3
   \<and> GFp_BN_reduce_mont (bn_of_nat 29) (mont_p lopsided_key)
       = Some (bn_of_nat (bn_value (bn_of_nat 29) mod 11))
   \<and> private_transform_mp lopsided_key (bn_of_nat 29)
       = Some (bn_of_nat ((bn_value (bn_of_nat 29) mod 11) ^ bn_value (dmp1 lopsided_key) mod 11))
   \<and> GFp_BN_reduce_mont (bn_of_nat 29) (mont_qq lopsided_key)
       = Some (bn_of_nat (bn_value (bn_of_nat 29) mod (3 * 3)))
   \<and> GFp_BN_reduce_mont (bn_of_nat (bn_value (bn_of_nat 29) mod (3 * 3))) (mont_q lopsided_key)
       = Some (bn_of_nat (bn_value (bn_of_nat 29) mod 3))
   \<and> private_transform_mq lopsided_key (bn_of_nat 29)
       = Some (bn_of_nat ((bn_value (bn_of_nat 29) mod 3) ^ bn_value (dmq1 lopsided_key) mod 3))"
proof -
  have h1: "(1::nat) < 3" and h2: "(3::nat) < 11"
    and h3: "odd (11::nat)" and h4: "odd (3::nat)"
    by simp_all
  have h5: "bn_value (mont_N (mont_p lopsided_key)) = 11"
    and h6: "bn_value (mont_N (mont_q lopsided_key)) = 3"
    and h7: "bn_value (mont_N (mont_qq lopsided_key)) = 3 * 3"
    by (simp_all add: lopsided_key_def)
  have h8: "bn_value (bn_of_nat 29) < 11 * 3" by simp
  have h9: "(11::nat) \<le> 3 * 3 * 3" by simp
  note c = reductions_in_range [OF h1 h2 h3 h4 h5 h6 h7 h8]
  note c6 = c [THEN conjunct2, THEN conjunct2, THEN conjunct2, THEN conjunct2, THEN conjunct2]
  note c7 = c6 [THEN conjunct2]
  note c8 = c7 [THEN conjunct2, rule_format, OF h9]
  show ?thesis
    by (intro conjI h1 h2 h3 h4 h5 h6 h7 h8 h9 c6 [THEN conjunct1] c7 [THEN conjunct1]
        c8 [THEN conjunct1] c8 [THEN conjunct2, THEN conjunct1]
        c8 [THEN conjunct2, THEN conjunct2])
qed

theorem reductions_in_range_counterexample:
  "is_prime 11 \<and> is_prime 3 \<and> (3::nat) < 11 \<and> \<not> ((11::nat) * 3 < 3 * 3 * 3)"
  by (simp add: is_prime_trial no_divisor.simps)

text \<open>
  C10: on every path on which a transform does not return success, the caller's buffer is
  the one that was passed in. The only write is the last step of each transform.
\<close>

theorem failure_leaves_buffer:
  "(fst (GFp_rsa_private_transform rsa inout blinding rng) \<noteq> Inr ()
      \<longrightarrow> fst (snd (GFp_rsa_private_transform rsa inout blinding rng)) = inout)
   \<and> (fst (GFp_rsa_public_decrypt out public_key_n public_key_e inp min_bits max_bits) \<noteq> Inr ()
      \<longrightarrow> snd (GFp_rsa_public_decrypt out public_key_n public_key_e inp min_bits max_bits) = out)"
proof (rule conjI)
  have rel: "y = inout"
    if "private_transform_release rsa bl base r inout = (x, y)" "x \<noteq> Inr ()" for bl base r x y
    using that
    by (simp add: private_transform_release_def GFp_BN_bn2bin_padded_def GFp_BN_BLINDING_invert_def
        split: option.splits if_splits)
  show "fst (GFp_rsa_private_transform rsa inout blinding rng) \<noteq> Inr ()
      \<longrightarrow> fst (snd (GFp_rsa_private_transform rsa inout blinding rng)) = inout"
    using rel
    by (auto simp: GFp_rsa_private_transform_def Let_def split: option.splits prod.splits)
  show "fst (GFp_rsa_public_decrypt out public_key_n public_key_e inp min_bits max_bits) \<noteq> Inr ()
      \<longrightarrow> snd (GFp_rsa_public_decrypt out public_key_n public_key_e inp min_bits max_bits) = out"
    by (simp add: GFp_rsa_public_decrypt_def Let_def GFp_BN_bn2bin_padded_def
        split: option.splits sum.splits)
qed

theorem failure_leaves_buffer_witness:
  "fst (GFp_rsa_private_transform example_key [0, 0, 0, 0, 42] example_blinding None) \<noteq> Inr ()
   \<and> fst (snd (GFp_rsa_private_transform example_key [0, 0, 0, 0, 42] example_blinding None))
       = [0, 0, 0, 0, 42]
   \<and> fst (GFp_rsa_public_decrypt [9, 9, 9, 9, 9] [2, 0, 0, 255, 255] [6] [1, 127, 148, 40, 146] 34 2048)
       \<noteq> Inr ()
   \<and> snd (GFp_rsa_public_decrypt [9, 9, 9, 9, 9] [2, 0, 0, 255, 255] [6] [1, 127, 148, 40, 146] 34 2048)
       = [9, 9, 9, 9, 9]"
proof -
  have h1: "fst (GFp_rsa_private_transform example_key [0, 0, 0, 0, 42] example_blinding None) \<noteq> Inr ()"
    by (simp add: GFp_rsa_private_transform_def GFp_BN_bin2bn_def GFp_BN_ucmp_def be_value_42
        example_key_def GFp_BN_BLINDING_convert_def)
  have b6: "num_bits_nat 6 = 3" by (simp add: num_bits_nat.simps)
  have chk: "GFp_rsa_check_modulus_and_exponent (bn_of_nat 8590000127) (bn_of_nat 6) 34 2048
      = Inl RSA_R_BAD_E_VALUE"
    by (simp add: GFp_rsa_check_modulus_and_exponent_def Let_def kMaxExponentBits_def
        GFp_BN_num_bits_def GFp_BN_is_odd_def num_bits_34 b6)
  have h2: "fst (GFp_rsa_public_decrypt [9, 9, 9, 9, 9] [2, 0, 0, 255, 255] [6] [1, 127, 148, 40, 146] 34 2048)
       \<noteq> Inr ()"
    using public_decrypt_sized
      [of "[9, 9, 9, 9, 9]" "[2, 0, 0, 255, 255]" "[1, 127, 148, 40, 146]" "[6]" 34 2048]
    by (simp add: be_value_n_bytes be_value_6 example_n_size chk)
  note c = failure_leaves_buffer
    [of example_key "[0, 0, 0, 0, 42]" example_blinding None
        "[9, 9, 9, 9, 9]" "[2, 0, 0, 255, 255]" "[6]" "[1, 127, 148, 40, 146]" 34 2048]
  show ?thesis
    by (intro conjI h1 h2 c [THEN conjunct1, rule_format, OF h1] c [THEN conjunct2, rule_format, OF h2])
qed

end
